theory Spec2Isabelle
  imports Complex_Main "HOL-Library.Word"
begin

section \<open>Process exit codes (\<open>main\<close> in \<open>Src/main.cpp\<close>)\<close>

text \<open>
  The three integers read from the input container and the optional dataset
  \<open>/Hamiltonian/MagneticField\<close> (absent: the preset value 0 is kept).
\<close>

record config =
  is_complex :: int
  precision :: int
  dim :: int
  MagneticField :: "int option"

text \<open>How the process ends: \<open>exit(c)\<close> somewhere, or \<open>return c\<close> from \<open>main\<close>.\<close>

datatype outcome = Exit int | Return int

fun exit_code :: "outcome \<Rightarrow> int" where
  "exit_code (Exit c) = c"
| "exit_code (Return c) = c"

text \<open>
  The instantiations of \<open>GlobalSimulation\<close> that the \<open>switch\<close> still holds; every other
  case label is commented out in the source and so falls to \<open>default\<close>.
\<close>

definition instantiated :: "int \<Rightarrow> bool" where
  "instantiated index \<longleftrightarrow> index = 1 \<or> index = 4 \<or> index = 12 \<or> index = 13 \<or> index = 14"

text \<open>
  \<open>main\<close>; the constructor of \<open>GlobalSimulation\<close> is a parameter: for the dispatch index it
  says whether the simulation leaves the process itself (\<open>Some c\<close>) or comes back (\<open>None\<close>).
\<close>

definition main :: "(int \<Rightarrow> int option) \<Rightarrow> config \<Rightarrow> outcome" where
  "main GlobalSimulation c =
    (let mf = (case MagneticField c of None \<Rightarrow> 0 | Some v \<Rightarrow> v) in
     if mf = 1 \<and> is_complex c = 0 then Exit 1
     else if dim c < 1 \<or> dim c > 3 then Exit 0
     else if precision c < 0 \<or> precision c > 2 then Exit 0
     else if is_complex c < 0 \<or> is_complex c > 1 then Exit 0
     else let index = dim c - 1 + 3 * precision c + is_complex c * 3 * 3 in
       if instantiated index then
         (case GlobalSimulation index of Some e \<Rightarrow> Exit e | None \<Rightarrow> Return 1)
       else Exit 0)"


section \<open>Running mean of the moment accumulators\<close>

text \<open>
  The update \<open>gamma(ind) += (flatten - gamma(ind))/value_type(average + 1)\<close> of
  \<open>Gamma1D\<close>, \<open>Gamma2D\<close>, \<open>Gamma3D\<close> and \<open>recursive_KPM\<close>, in exact arithmetic.
\<close>

definition welford :: "'a::field_char_0 \<Rightarrow> 'a \<Rightarrow> nat \<Rightarrow> 'a" where
  "welford gamma flatten average = gamma + (flatten - gamma) / of_nat (average + 1)"

text \<open>
  The loop over the random vectors of one disorder realisation, seen at one entry of the
  moment array: every pass folds one sample in and ends with \<open>average++\<close>.
\<close>

fun randV_loop :: "'a::field_char_0 \<times> nat \<Rightarrow> 'a list \<Rightarrow> 'a \<times> nat" where
  "randV_loop (gamma, average) [] = (gamma, average)"
| "randV_loop (gamma, average) (x # xs) = randV_loop (welford gamma x average, average + 1) xs"

text \<open>The loop over the disorder realisations around it.\<close>

fun disorder_loop :: "'a::field_char_0 \<times> nat \<Rightarrow> 'a list list \<Rightarrow> 'a \<times> nat" where
  "disorder_loop s [] = s"
| "disorder_loop s (xs # xss) = disorder_loop (randV_loop s xs) xss"

text \<open>The accumulator starts from a zeroed array and \<open>average = 0\<close>.\<close>

definition running_mean :: "'a::field_char_0 list list \<Rightarrow> 'a" where
  "running_mean xss = fst (disorder_loop (0, 0) xss)"


section \<open>Direction strings (\<open>Simulation::process_string\<close>)\<close>

text \<open>
  \<open>std::string::find\<close>: the position of the first occurrence, \<open>None\<close> for \<open>npos\<close>
  (which the source stores in an \<open>int\<close>, as \<open>-1\<close>).
\<close>

fun find_char :: "char \<Rightarrow> string \<Rightarrow> nat option" where
  "find_char c [] = None"
| "find_char c (x # xs) = (if x = c then Some 0 else map_option Suc (find_char c xs))"

text \<open>
  The \<open>while(end_pos != -1)\<close> loop: \<open>substr(0, end_pos)\<close> is pushed and the string is
  cut behind the comma; with no comma left, \<open>substr(0, -1)\<close> is the whole rest and the
  loop ends.
\<close>

function split_loop :: "string list \<Rightarrow> string \<Rightarrow> string list" where
  "split_loop strings indices_string =
     (case find_char CHR '','' indices_string of
        None \<Rightarrow> strings @ [indices_string]
      | Some end_pos \<Rightarrow>
          split_loop (strings @ [take end_pos indices_string]) (drop (end_pos + 1) indices_string))"
  by pat_completeness auto
termination
proof (relation "measure (\<lambda>(strings, indices_string). length indices_string)")
  show "wf (measure (\<lambda>(strings, indices_string). length indices_string))" by simp
next
  fix strings :: "string list" and indices_string :: string and end_pos :: nat
  assume "find_char CHR '','' indices_string = Some end_pos"
  then have "indices_string \<noteq> []" by (cases indices_string) simp_all
  then show "((strings @ [take end_pos indices_string], drop (end_pos + 1) indices_string),
              (strings, indices_string)) \<in> measure (\<lambda>(strings, indices_string). length indices_string)"
    by simp
qed

declare split_loop.simps [simp del]

text \<open>
  The loop over the characters of one factor: \<open>'x'\<close> gives 0, \<open>'y'\<close> gives 1, and the
  \<open>else\<close> branch prints a message and calls \<open>exit(0)\<close>, here \<open>Inl 0\<close>.
\<close>

fun inner_loop :: "int list \<Rightarrow> string \<Rightarrow> int + int list" where
  "inner_loop temp [] = Inr temp"
| "inner_loop temp (single_char # rest) =
     (if single_char = CHR ''x'' then inner_loop (temp @ [0]) rest
      else if single_char = CHR ''y'' then inner_loop (temp @ [1]) rest
      else Inl 0)"

text \<open>The loop over the factors, \<open>indices.push_back(temp)\<close>.\<close>

fun outer_loop :: "int list list \<Rightarrow> string list \<Rightarrow> int + int list list" where
  "outer_loop indices [] = Inr indices"
| "outer_loop indices (s # strings) =
     (case inner_loop [] s of
        Inl e \<Rightarrow> Inl e
      | Inr temp \<Rightarrow> outer_loop (indices @ [temp]) strings)"

definition process_string :: "string \<Rightarrow> int + int list list" where
  "process_string indices_string = outer_loop [] (split_loop [] indices_string)"

text \<open>
  The specification's reading, for comparison: the factors of a string are its maximal
  comma-free pieces, and a legal string has the characters \<open>x\<close>, \<open>y\<close> and comma only;
  \<open>spec_axis\<close> is the axis of a legal character of a factor.
\<close>

fun spec_factors :: "string \<Rightarrow> string list" where
  "spec_factors [] = [[]]"
| "spec_factors (c # cs) =
     (if c = CHR '','' then [] # spec_factors cs
      else (case spec_factors cs of [] \<Rightarrow> [[c]] | f # fs \<Rightarrow> (c # f) # fs))"

definition spec_axis :: "char \<Rightarrow> int" where
  "spec_axis c = (if c = CHR ''x'' then 0 else 1)"

definition legal :: "string \<Rightarrow> bool" where
  "legal s \<longleftrightarrow> list_all (\<lambda>c. c = CHR ''x'' \<or> c = CHR ''y'' \<or> c = CHR '','') s"

fun join_commas :: "string list \<Rightarrow> string" where
  "join_commas [] = []"
| "join_commas [f] = f"
| "join_commas (f # g # fs) = f @ CHR '','' # join_commas (g # fs)"


section \<open>Storing the moment arrays (\<open>store_gamma\<close>, \<open>store_gamma3D\<close>)\<close>

text \<open>
  How a call can fail: \<open>exit(c)\<close>, \<open>std::vector::at\<close> out of range, an assertion of
  Eigen (a coefficient access out of range, or operands of different sizes; the build does
  not define \<open>NDEBUG\<close>), a loop whose step is zero, or a division by zero.
\<close>

datatype failure = Exited int | Out_of_range | Eigen_assert | Loops_forever | Division_by_zero

definition bind_f :: "failure + 'a \<Rightarrow> ('a \<Rightarrow> failure + 'b) \<Rightarrow> failure + 'b" where
  "bind_f x f = (case x of Inl e \<Rightarrow> Inl e | Inr a \<Rightarrow> f a)"

text \<open>\<open>std::vector::at\<close>.\<close>

definition vector_at :: "'a list \<Rightarrow> nat \<Rightarrow> failure + 'a" where
  "vector_at xs i = (if i < length xs then Inr (xs ! i) else Inl Out_of_range)"

text \<open>
  \<open>Eigen::Array<T, -1, -1>\<close>: the sizes and the coefficients in column-major order;
  \<open>T\<close> is taken complex (\<open>myconj\<close> and \<open>adjoint\<close> on a real \<open>T\<close> are those of its embedding).
\<close>

record eigen_array =
  rows :: nat
  cols :: nat
  data :: "complex list"
































section \<open>The KPM vector in two dimensions (\<open>KPM_Vector<T, 2>\<close>)\<close>

subsection \<open>Build parameters, lattice and Hamiltonian\<close>

text \<open>
  \<open>NGHOSTS\<close> is fixed by \<open>main.cpp\<close>; \<open>STRIDE\<close> is 128 unless the build defines it, and
  the scalar type \<open>T\<close> is real or complex; both are parameters of the build.
\<close>

definition NGHOSTS :: nat where
  "NGHOSTS = 2"

record build =
  STRIDE :: nat
  T_complex :: bool

text \<open>
  \<open>peierls2\<close>: \<open>exp(im*phase)\<close> for a complex \<open>T\<close>, \<open>1.0\<close> for a real one. Amplitudes
  are complex numbers throughout (a real \<open>T\<close> is embedded), in exact arithmetic.
\<close>

definition peierls2 :: "build \<Rightarrow> real \<Rightarrow> complex" where
  "peierls2 B phase = (if T_complex B then cis phase else 1)"

text \<open>
  The members of \<open>LatticeStructure<2>\<close> that the vector reads. Its header is not among the
  sources, so \<open>convertCoordinates\<close> (local linear index to global coordinates, by axis) is
  a field here, like the data.
\<close>

record LatticeStructure =
  Ld :: "nat \<Rightarrow> nat"
  ld :: "nat \<Rightarrow> nat"
  lStr :: "nat \<Rightarrow> nat"
  Orb :: nat
  Nd :: nat
  thread_id :: nat
  vect_pot :: "nat \<Rightarrow> nat \<Rightarrow> real"
  convertCoordinates :: "nat \<Rightarrow> nat \<Rightarrow> int"

text \<open>
  Modelled from the spec: \<open>Coordinates.hpp\<close> is missing. A site index packs
  \<open>(x\<^sub>0, x\<^sub>1, orbital)\<close> in row-major order with the orbital the slowest axis, so for
  \<open>Coordinates x(r.Ld)\<close> the strides \<open>x.basis\<close> are \<open>1\<close>, \<open>Ld[0]\<close>, \<open>Ld[0]*Ld[1]\<close> and
  \<open>x.set({x0, x1, io}).index\<close> is \<open>x0 + x1*Ld[0] + io*Ld[0]*Ld[1]\<close>.
\<close>

definition basis :: "LatticeStructure \<Rightarrow> nat \<Rightarrow> nat" where
  "basis r k = (if k = 0 then 1 else if k = 1 then Ld r 0 else Ld r 0 * Ld r 1)"

definition set_index :: "LatticeStructure \<Rightarrow> nat \<Rightarrow> nat \<Rightarrow> nat \<Rightarrow> nat" where
  "set_index r x0 x1 io = x0 * basis r 0 + x1 * basis r 1 + io * basis r 2"

text \<open>
  The regular hoppings \<open>h.hr\<close>, tables indexed by hopping and orbital (\<open>dist_hr\<close> is the
  member \<open>dist\<close>).
\<close>

record Periodic_Operator =
  NHoppings :: "nat \<Rightarrow> nat"
  distance :: "nat \<Rightarrow> nat \<Rightarrow> int"
  hopping :: "nat \<Rightarrow> nat \<Rightarrow> complex"
  dist_hr :: "nat \<Rightarrow> nat \<Rightarrow> nat"

text \<open>
  One structural-disorder pattern, an element of \<open>h.hd\<close> (\<open>hopping_d\<close> and \<open>U_d\<close> are its
  members \<open>hopping\<close> and \<open>U\<close>).
\<close>

record Defect_Operator =
  position :: "nat list list"
  node_position :: "int list"
  element1 :: "nat list"
  element2 :: "nat list"
  hopping_d :: "complex list"
  element :: "nat list"
  U_d :: "complex list"
  border_element1 :: "nat list"
  border_element2 :: "nat list"
  border_hopping :: "complex list"
  border_element :: "nat list"
  border_U :: "complex list"

text \<open>The vacancies \<open>h.hV\<close> (\<open>position_V\<close> is the member \<open>position\<close>).\<close>

record Vacancy_Operator =
  position_V :: "nat list list"
  vacancies_with_defects :: "nat list"

text \<open>
  The Hamiltonian (\<open>hd_h\<close> is its member \<open>hd\<close>). \<open>NHoppings_h\<close>, \<open>t_h\<close> and \<open>d_h\<close> are
  the accessors \<open>h.NHoppings\<close>, \<open>h.t\<close> and \<open>h.d\<close> that \<open>Multiply2\<close> calls.
\<close>

record Hamiltonian =
  cross_mozaic :: "bool list"
  cross_mozaic_indexes :: "nat list"
  Anderson_orb_address :: "nat \<Rightarrow> int"
  U_Anderson :: "complex list"
  U_Orbital :: "complex list"
  hr :: Periodic_Operator
  hd_h :: "Defect_Operator list"
  hV :: Vacancy_Operator
  NHoppings_h :: "nat \<Rightarrow> nat"
  t_h :: "nat \<Rightarrow> nat \<Rightarrow> complex"
  d_h :: "nat \<Rightarrow> nat \<Rightarrow> int"

text \<open>
  The vector: the ring index, the number of slots and the matrix \<open>v\<close> (here \<open>v_data\<close>), a
  store from (row, column) to amplitudes; \<open>v.col(c).data()[i]\<close> is \<open>v_data kv i c\<close>.
\<close>

record KPM_Vector =
  index :: nat
  memory :: nat
  v_data :: "nat \<Rightarrow> nat \<Rightarrow> complex"

definition inc_index :: "KPM_Vector \<Rightarrow> KPM_Vector" where
  "inc_index kv = kv\<lparr>index := (index kv + 1) mod memory kv\<rparr>"

text \<open>
  The columns behind the pointers \<open>phi0\<close>, \<open>phiM1\<close> and \<open>phiM2\<close> (the source computes
  them in \<open>int\<close>, where \<open>(memory + index - 2) % memory\<close> is 0 for \<open>memory = 1\<close>).
\<close>

definition col0 :: "KPM_Vector \<Rightarrow> nat" where
  "col0 kv = index kv"

definition colM1 :: "KPM_Vector \<Rightarrow> nat" where
  "colM1 kv = nat ((int (memory kv) + int (index kv) - 1) mod int (memory kv))"

definition colM2 :: "KPM_Vector \<Rightarrow> nat" where
  "colM2 kv = nat ((int (memory kv) + int (index kv) - 2) mod int (memory kv))"

subsection \<open>The elementary assignments of \<open>Multiply\<close>\<close>

text \<open>
  Every statement of \<open>Multiply\<close> and \<open>Multiply2\<close> that touches the vector is one of
  \<^item> \<open>phi0[i] = - value_type(MULT) * phiM2[i]\<close>,
  \<^item> \<open>phi0[i] += a * phiM1[j] * b\<close> for coefficients \<open>a\<close>, \<open>b\<close> of the Hamiltonian,
  \<^item> \<open>phi0[i] = 0.\<close>,
  and which of them run, on which sites and in which order, depends on the lattice and the
  Hamiltonian only. The loops are therefore written as the list of the assignments they
  perform, in program order, which is then run on the store. The three pointers may alias
  (\<open>phiM2\<close> is \<open>phi0\<close> when \<open>memory = 2\<close>), so every read is from the current store.
\<close>

datatype op = Init nat | Add nat complex nat complex | Zero nat

fun exec_op :: "nat \<Rightarrow> nat \<Rightarrow> nat \<Rightarrow> nat \<Rightarrow> (nat \<Rightarrow> nat \<Rightarrow> complex) \<Rightarrow> op
    \<Rightarrow> (nat \<Rightarrow> nat \<Rightarrow> complex)" where
  "exec_op MULT c0 c1 c2 w (Init i) = w(i := (w i)(c0 := - of_nat MULT * w i c2))"
| "exec_op MULT c0 c1 c2 w (Add i a j b) = w(i := (w i)(c0 := w i c0 + a * w j c1 * b))"
| "exec_op MULT c0 c1 c2 w (Zero i) = w(i := (w i)(c0 := 0))"

definition exec_ops :: "nat \<Rightarrow> nat \<Rightarrow> nat \<Rightarrow> nat \<Rightarrow> op list \<Rightarrow> (nat \<Rightarrow> nat \<Rightarrow> complex)
    \<Rightarrow> (nat \<Rightarrow> nat \<Rightarrow> complex)" where
  "exec_ops MULT c0 c1 c2 ops w = foldl (exec_op MULT c0 c1 c2) w ops"

text \<open>Collecting the assignments of a loop whose passes may throw.\<close>

fun collect :: "('k \<Rightarrow> failure + op list) \<Rightarrow> 'k list \<Rightarrow> failure + op list" where
  "collect body [] = Inr []"
| "collect body (k # ks) =
     bind_f (body k) (\<lambda>ops. bind_f (collect body ks) (\<lambda>rest. Inr (ops @ rest)))"

definition then_ops :: "failure + op list \<Rightarrow> failure + op list \<Rightarrow> failure + op list" where
  "then_ops first second = bind_f first (\<lambda>a. bind_f second (\<lambda>b. Inr (a @ b)))"

text \<open>\<open>xs.at(k)\<close> for an index computed in \<open>size_t\<close> from signed parts.\<close>

definition vector_at_int :: "'a list \<Rightarrow> int \<Rightarrow> failure + 'a" where
  "vector_at_int xs k = (if 0 \<le> k \<and> nat k < length xs then Inr (xs ! nat k) else Inl Out_of_range)"


subsection \<open>The loops of \<open>Multiply\<close> and \<open>Multiply2\<close>\<close>

text \<open>
  \<open>for(i = first; i < bound; i += step)\<close>: the values of \<open>i\<close>. A zero step below the
  bound never ends.
\<close>

function strided :: "nat \<Rightarrow> nat \<Rightarrow> nat \<Rightarrow> failure + nat list" where
  "strided i bound step =
     (if i < bound
      then (if step = 0 then Inl Loops_forever
            else bind_f (strided (i + step) bound step) (\<lambda>rest. Inr (i # rest)))
      else Inr [])"
  by pat_completeness auto
termination
  by (relation "measure (\<lambda>(i, bound, step). bound - i)") auto

declare strided.simps [simp del]

text \<open>
  The two loops over the cells of the tile at \<open>(i0, i1)\<close> for the orbital \<open>io\<close>:
  \<open>for(j = j0; j < j1; j += std) for(i = j; i < j + STRIDE; i++)\<close>.
\<close>

definition tile_loop :: "build \<Rightarrow> LatticeStructure \<Rightarrow> nat \<Rightarrow> nat \<Rightarrow> nat
    \<Rightarrow> (nat \<Rightarrow> nat \<Rightarrow> failure + op list) \<Rightarrow> failure + op list" where
  "tile_loop B r i0 i1 io body =
     (let ip = io * basis r 2;
          std = basis r 1;
          j0 = ip + i0 + i1 * std;
          j1 = j0 + STRIDE B * std
      in bind_f (strided j0 j1 std)
           (collect (\<lambda>j. collect (\<lambda>i. body j i) [j..<j + STRIDE B])))"

text \<open>
  The first loop nest: the tiles listed in \<open>cross_mozaic_indexes\<close> are initialised
  before the sweep.
\<close>

definition pre_init_ops :: "build \<Rightarrow> LatticeStructure \<Rightarrow> Hamiltonian \<Rightarrow> failure + op list" where
  "pre_init_ops B r h =
     collect (\<lambda>istr.
        if lStr r 0 = 0 then Inl Division_by_zero
        else
          (let i0 = (istr mod lStr r 0) * STRIDE B + NGHOSTS;
               i1 = (istr div lStr r 0) * STRIDE B + NGHOSTS
           in collect (\<lambda>io. tile_loop B r i0 i1 io (\<lambda>j i. Inr [Init i])) [0..<Orb r]))
       (cross_mozaic_indexes h)"

text \<open>Inside the sweep, for one tile and one orbital: initialisation of \<open>phi0\<close>.\<close>

definition init_ops :: "build \<Rightarrow> LatticeStructure \<Rightarrow> Hamiltonian \<Rightarrow> nat \<Rightarrow> nat \<Rightarrow> nat \<Rightarrow> nat
    \<Rightarrow> failure + op list" where
  "init_ops B r h istr i0 i1 io =
     bind_f (vector_at (cross_mozaic h) istr) (\<lambda>cm.
       if cm then tile_loop B r i0 i1 io (\<lambda>j i. Inr [Init i]) else Inr [])"

text \<open>
  Anderson disorder:
  \<open>phi0[i] += value_type(MULT + 1) * phiM1[i] * h.U_Anderson.at(i - dd)\<close>, or the same with
  \<open>h.U_Orbital.at(io)\<close>, or nothing.
\<close>

definition anderson_ops :: "build \<Rightarrow> nat \<Rightarrow> LatticeStructure \<Rightarrow> Hamiltonian \<Rightarrow> nat \<Rightarrow> nat \<Rightarrow> nat
    \<Rightarrow> failure + op list" where
  "anderson_ops B MULT r h i0 i1 io =
     (let dd = (Anderson_orb_address h io - int io) * int (Nd r) in
      if Anderson_orb_address h io \<ge> 0 then
        tile_loop B r i0 i1 io (\<lambda>j i.
          bind_f (vector_at_int (U_Anderson h) (int i - dd)) (\<lambda>u. Inr [Add i (of_nat (MULT + 1)) i u]))
      else if Anderson_orb_address h io = - 1 then
        tile_loop B r i0 i1 io (\<lambda>j i.
          bind_f (vector_at (U_Orbital h) io) (\<lambda>u. Inr [Add i (of_nat (MULT + 1)) i u]))
      else Inr [])"

text \<open>
  The regular hoppings: \<open>phi0[i] += t1 * phiM1[i + d1] * peierls2(phase)\<close>, the phase
  computed once per row from \<open>vee(0)\<close>, the first coordinate of \<open>h.hr.dist(ib, io)\<close> in a
  box of side 3 minus one, and the global coordinate of the row along axis 1.
\<close>

definition hopping_ops :: "build \<Rightarrow> nat \<Rightarrow> LatticeStructure \<Rightarrow> Hamiltonian \<Rightarrow> nat \<Rightarrow> nat \<Rightarrow> nat
    \<Rightarrow> failure + op list" where
  "hopping_ops B MULT r h i0 i1 io =
     collect (\<lambda>ib.
        let d1 = distance (hr h) ib io;
            t1 = of_nat (MULT + 1) * hopping (hr h) ib io;
            vee0 = int (dist_hr (hr h) ib io mod 3) - 1
        in tile_loop B r i0 i1 io (\<lambda>j i.
             let phase = of_int vee0 * of_int (convertCoordinates r j 1) * vect_pot r 0 1
             in Inr [Add i t1 (nat (int i + d1)) (peierls2 B phase)]))
       [0..<NHoppings (hr h) io]"

definition orbital_ops :: "build \<Rightarrow> nat \<Rightarrow> LatticeStructure \<Rightarrow> Hamiltonian \<Rightarrow> nat \<Rightarrow> nat \<Rightarrow> nat \<Rightarrow> nat
    \<Rightarrow> failure + op list" where
  "orbital_ops B MULT r h istr i0 i1 io =
     then_ops (init_ops B r h istr i0 i1 io)
       (then_ops (anderson_ops B MULT r h i0 i1 io) (hopping_ops B MULT r h i0 i1 io))"

text \<open>
  The phase of a structural bond from \<open>k1\<close> to \<open>k2\<close>:
  \<open>(global2 - global1)\<^sup>T * vect_pot * global1\<close> on the first two coordinates.
\<close>

definition bond_phase :: "LatticeStructure \<Rightarrow> nat \<Rightarrow> nat \<Rightarrow> real" where
  "bond_phase r k1 k2 =
     (\<Sum>a\<leftarrow>[0..<2]. \<Sum>b\<leftarrow>[0..<2].
        of_int (convertCoordinates r k2 a - convertCoordinates r k1 a) * vect_pot r a b
          * of_int (convertCoordinates r k1 b))"

text \<open>
  Structural disorder of one pattern in the tile \<open>istr\<close>: for every anchor the internal
  bonds, \<open>phi0[k1] += value_type(MULT + 1) * hopping[k] * phiM1[k2] * peierls2(phase)\<close>, then
  the internal on-site terms, \<open>phi0[k1] += value_type(MULT + 1) * U[k] * phiM1[k1]\<close>.
\<close>

definition defect_ops :: "build \<Rightarrow> nat \<Rightarrow> LatticeStructure \<Rightarrow> Defect_Operator \<Rightarrow> nat \<Rightarrow> failure + op list" where
  "defect_ops B MULT r idf istr =
     bind_f (vector_at (position idf) istr) (\<lambda>anchors.
       Inr (concat (map (\<lambda>ip.
          map (\<lambda>k.
             let k1 = nat (int ip + node_position idf ! (element1 idf ! k));
                 k2 = nat (int ip + node_position idf ! (element2 idf ! k))
             in Add k1 (of_nat (MULT + 1) * hopping_d idf ! k) k2 (peierls2 B (bond_phase r k1 k2)))
            [0..<length (hopping_d idf)]
          @ map (\<lambda>k.
             let k1 = nat (int ip + node_position idf ! (element idf ! k))
             in Add k1 (of_nat (MULT + 1) * U_d idf ! k) k1 1)
            [0..<length (U_d idf)]) anchors)))"

text \<open>Emptying the vacancies of the tile.\<close>

definition vacancy_ops :: "Hamiltonian \<Rightarrow> nat \<Rightarrow> failure + op list" where
  "vacancy_ops h istr =
     bind_f (vector_at (position_V (hV h)) istr) (\<lambda>ks. Inr (map Zero ks))"

text \<open>One tile of the sweep.\<close>

definition tile_ops :: "build \<Rightarrow> nat \<Rightarrow> LatticeStructure \<Rightarrow> Hamiltonian \<Rightarrow> nat \<Rightarrow> nat \<Rightarrow> failure + op list" where
  "tile_ops B MULT r h i0 i1 =
     (let istr = (i1 - NGHOSTS) div STRIDE B * lStr r 0 + (i0 - NGHOSTS) div STRIDE B in
      then_ops (collect (orbital_ops B MULT r h istr i0 i1) [0..<Orb r])
        (then_ops (collect (\<lambda>idf. defect_ops B MULT r idf istr) (hd_h h))
           (vacancy_ops h istr)))"

text \<open>
  The sweep,
  \<open>for(i1 = NGHOSTS; i1 < r.Ld[1] - NGHOSTS; i1 += STRIDE)
     for(i0 = NGHOSTS; i0 < r.Ld[0] - NGHOSTS; i0 += STRIDE)\<close>.
\<close>

definition sweep_ops :: "build \<Rightarrow> nat \<Rightarrow> LatticeStructure \<Rightarrow> Hamiltonian \<Rightarrow> failure + op list" where
  "sweep_ops B MULT r h =
     bind_f (strided NGHOSTS (Ld r 1 - NGHOSTS) (STRIDE B))
       (collect (\<lambda>i1.
          bind_f (strided NGHOSTS (Ld r 0 - NGHOSTS) (STRIDE B))
            (collect (\<lambda>i0. tile_ops B MULT r h i0 i1))))"

text \<open>
  After the sweep: the vacancies with defects are emptied, and then the broken impurities
  add their bonds and on-site terms from the border lists.
\<close>

definition border_ops :: "build \<Rightarrow> nat \<Rightarrow> LatticeStructure \<Rightarrow> Hamiltonian \<Rightarrow> op list" where
  "border_ops B MULT r h =
     concat (map (\<lambda>idf.
        map (\<lambda>i.
           let i1 = border_element1 idf ! i;
               i2 = border_element2 idf ! i
           in Add i1 (of_nat (MULT + 1) * border_hopping idf ! i) i2 (peierls2 B (bond_phase r i1 i2)))
          [0..<length (border_element1 idf)]) (hd_h h))
     @ concat (map (\<lambda>idf.
        map (\<lambda>i.
           let i1 = border_element idf ! i
           in Add i1 (of_nat (MULT + 1) * border_U idf ! i) i1 1)
          [0..<length (border_element idf)]) (hd_h h))"

definition Multiply_ops :: "build \<Rightarrow> nat \<Rightarrow> LatticeStructure \<Rightarrow> Hamiltonian \<Rightarrow> failure + op list" where
  "Multiply_ops B MULT r h =
     then_ops (pre_init_ops B r h)
       (then_ops (sweep_ops B MULT r h)
          (Inr (map Zero (vacancies_with_defects (hV h)) @ border_ops B MULT r h)))"

text \<open>
  \<open>Multiply<MULT>\<close> up to its last statement, the call of \<open>Exchange_Boundaries\<close>: the
  index moves on, and the assignments run on the three columns.
\<close>

definition run_ops :: "nat \<Rightarrow> op list \<Rightarrow> KPM_Vector \<Rightarrow> KPM_Vector" where
  "run_ops MULT ops kv =
     kv\<lparr>v_data := exec_ops MULT (col0 kv) (colM1 kv) (colM2 kv) ops (v_data kv)\<rparr>"

definition Multiply_local :: "build \<Rightarrow> nat \<Rightarrow> LatticeStructure \<Rightarrow> Hamiltonian \<Rightarrow> KPM_Vector
    \<Rightarrow> failure + KPM_Vector" where
  "Multiply_local B MULT r h kv =
     bind_f (Multiply_ops B MULT r h) (\<lambda>ops. Inr (run_ops MULT ops (inc_index kv)))"

text \<open>
  \<open>Multiply2<MULT>\<close> up to the call of \<open>Exchange_Boundaries\<close>: site by site,
  \<open>phi0[i] = - value_type(MULT) * phiM2[i]\<close> and then, for every hopping,
  \<open>phi0[i] += value_type(MULT + 1) * h.t(ib, io) * phiM1[i + h.d(ib, io)]\<close>.
\<close>

definition Multiply2_ops :: "nat \<Rightarrow> LatticeStructure \<Rightarrow> Hamiltonian \<Rightarrow> op list" where
  "Multiply2_ops MULT r h =
     concat (map (\<lambda>io.
       concat (map (\<lambda>iy.
         concat (map (\<lambda>ix.
            let i = ix + iy * Ld r 0 + io * Nd r in
            Init i #
            map (\<lambda>ib. Add i (of_nat (MULT + 1) * t_h h ib io) (nat (int i + d_h h ib io)) 1)
              [0..<NHoppings_h h io])
          [NGHOSTS..<Ld r 0 - NGHOSTS]))
        [NGHOSTS..<Ld r 1 - NGHOSTS]))
      [0..<Orb r])"

definition Multiply2_local :: "nat \<Rightarrow> LatticeStructure \<Rightarrow> Hamiltonian \<Rightarrow> KPM_Vector \<Rightarrow> KPM_Vector" where
  "Multiply2_local MULT r h kv = run_ops MULT (Multiply2_ops MULT r h) (inc_index kv)"


subsection \<open>The halo exchange (\<open>Exchange_Boundaries\<close>)\<close>

text \<open>
  The tables that the constructor of \<open>KPM_Vector<T, 2>\<close> fills from the lattice: for the
  axis \<open>d\<close>, the length \<open>max[d]\<close> of a face, the step \<open>stride[d]\<close> along it and the step
  \<open>stride_ghosts[d]\<close> across it; \<open>MemIndBeg[d][b][io]\<close>, where the bulk face \<open>b\<close> starts,
  and \<open>MemIndEnd[d][b][io]\<close>, where the ghost face \<open>b\<close> starts. (The source declares the
  last two with room for two orbitals.)
\<close>

definition max_d :: "LatticeStructure \<Rightarrow> nat \<Rightarrow> nat" where
  "max_d r d = (if d = 0 then ld r 1 else Ld r 0)"

definition stride :: "LatticeStructure \<Rightarrow> nat \<Rightarrow> nat" where
  "stride r d = (if d = 0 then Ld r 0 else 1)"

definition stride_ghosts :: "LatticeStructure \<Rightarrow> nat \<Rightarrow> nat" where
  "stride_ghosts r d = (if d = 0 then 1 else Ld r 0)"

definition MemIndBeg :: "LatticeStructure \<Rightarrow> nat \<Rightarrow> nat \<Rightarrow> nat \<Rightarrow> nat" where
  "MemIndBeg r d b io =
     (if d = 0 then
        (if b = 0 then set_index r NGHOSTS NGHOSTS io
         else set_index r (Ld r 0 - 2 * NGHOSTS) NGHOSTS io)
      else
        (if b = 0 then set_index r 0 NGHOSTS io
         else set_index r 0 (Ld r 1 - 2 * NGHOSTS) io))"

definition MemIndEnd :: "LatticeStructure \<Rightarrow> nat \<Rightarrow> nat \<Rightarrow> nat \<Rightarrow> nat" where
  "MemIndEnd r d b io =
     (if d = 0 then
        (if b = 0 then set_index r 0 NGHOSTS io
         else set_index r (Ld r 0 - NGHOSTS) NGHOSTS io)
      else
        (if b = 0 then set_index r 0 0 io
         else set_index r 0 (Ld r 1 - NGHOSTS) io))"

definition BSize :: "LatticeStructure \<Rightarrow> nat \<Rightarrow> nat" where
  "BSize r d = Orb r * max_d r d * NGHOSTS"

text \<open>
  One thread of the parallel region: its \<open>Simulation\<close> (lattice, Hamiltonian and the
  staging array \<open>simul.ghosts\<close>), the neighbour map \<open>block[d][b]\<close> of its vector, and the
  vector. The threads share \<open>Global.ghosts\<close>.
\<close>

record thread =
  lattice :: LatticeStructure
  hamiltonian :: Hamiltonian
  block :: "nat \<Rightarrow> nat \<Rightarrow> nat"
  kpm :: KPM_Vector
  ghosts :: "nat \<Rightarrow> complex"

record world =
  threads :: "thread list"
  Global_ghosts :: "nat \<Rightarrow> complex"

text \<open>The current column \<open>phi = v.col(index).data()\<close> of a thread.\<close>

definition phi_of :: "thread \<Rightarrow> nat \<Rightarrow> complex" where
  "phi_of t i = v_data (kpm t) i (index (kpm t))"

text \<open>Assignments \<open>buffer[a] = x\<close> in sequence.\<close>

definition write_all :: "(nat \<times> complex) list \<Rightarrow> (nat \<Rightarrow> complex) \<Rightarrow> (nat \<Rightarrow> complex)" where
  "write_all ws buffer = foldl (\<lambda>f (a, x). f(a := x)) buffer ws"

text \<open>\<open>std::copy(src + first, src + first + n, dst + to)\<close> between two different arrays.\<close>

definition std_copy :: "(nat \<Rightarrow> complex) \<Rightarrow> nat \<Rightarrow> nat \<Rightarrow> (nat \<Rightarrow> complex) \<Rightarrow> nat \<Rightarrow> (nat \<Rightarrow> complex)" where
  "std_copy src first n dst to = (\<lambda>a. if to \<le> a \<and> a < to + n then src (first + (a - to)) else dst a)"

text \<open>
  The three nested loops over orbital, position along the face and ghost layer, shared by
  the copy out of \<open>phi\<close> and the copy into it: the pass \<open>(io, i, ig)\<close> uses the slot
  \<open>i + (ig + NGHOSTS*io) * max[d]\<close> of \<open>ghosts_left\<close> and of \<open>ghosts_right\<close>, and the cell
  at \<open>ig*stride_ghosts[d]\<close> behind \<open>il\<close> or \<open>ir\<close>, which start at the table entry and move
  by \<open>stride[d]\<close> with \<open>i\<close>.
\<close>

definition face_loop :: "LatticeStructure \<Rightarrow> nat \<Rightarrow> (nat \<Rightarrow> nat \<Rightarrow> nat \<Rightarrow> 'w list) \<Rightarrow> 'w list" where
  "face_loop r d body =
     concat (map (\<lambda>io. concat (map (\<lambda>i. concat (map (\<lambda>ig. body io i ig) [0..<NGHOSTS]))
       [0..<max_d r d])) [0..<Orb r])"

definition slot :: "LatticeStructure \<Rightarrow> nat \<Rightarrow> nat \<Rightarrow> nat \<Rightarrow> nat \<Rightarrow> nat" where
  "slot r d io i ig = i + (ig + NGHOSTS * io) * max_d r d"

definition cell :: "(LatticeStructure \<Rightarrow> nat \<Rightarrow> nat \<Rightarrow> nat \<Rightarrow> nat) \<Rightarrow> LatticeStructure
    \<Rightarrow> nat \<Rightarrow> nat \<Rightarrow> nat \<Rightarrow> nat \<Rightarrow> nat \<Rightarrow> nat" where
  "cell table r d b io i ig = table r d b io + i * stride r d + ig * stride_ghosts r d"

text \<open>
  First part of the pass for the axis \<open>d\<close>: the thread copies its two bulk faces into its
  staging array (\<open>ghosts_left\<close> at 0, \<open>ghosts_right\<close> at \<open>BSize\<close>).
\<close>

definition stage :: "nat \<Rightarrow> thread \<Rightarrow> thread" where
  "stage d t =
     (let r = lattice t in
      t\<lparr>ghosts := write_all
           (face_loop r d (\<lambda>io i ig.
              [(slot r d io i ig, phi_of t (cell MemIndBeg r d 0 io i ig)),
               (BSize r d + slot r d io i ig, phi_of t (cell MemIndBeg r d 1 io i ig))]))
           (ghosts t)\<rparr>)"

text \<open>and copies the staging array to its place in the shared array.\<close>

definition publish :: "nat \<Rightarrow> (nat \<Rightarrow> complex) \<Rightarrow> thread \<Rightarrow> (nat \<Rightarrow> complex)" where
  "publish d Global t =
     (let r = lattice t in
      std_copy (ghosts t) 0 (2 * BSize r d) Global (2 * BSize r d * thread_id r))"

text \<open>
  After the barrier: the left half of the right neighbour's staging goes to
  \<open>ghosts_right\<close>, the right half of the left neighbour's to \<open>ghosts_left\<close>.
\<close>

definition fetch :: "nat \<Rightarrow> (nat \<Rightarrow> complex) \<Rightarrow> thread \<Rightarrow> thread" where
  "fetch d Global t =
     (let r = lattice t;
          neigh_left = 2 * block t d 0 * BSize r d;
          neigh_right = 2 * block t d 1 * BSize r d;
          g1 = std_copy Global neigh_right (BSize r d) (ghosts t) (BSize r d);
          g2 = std_copy Global (neigh_left + BSize r d) (BSize r d) g1 0
      in t\<lparr>ghosts := g2\<rparr>)"

text \<open>After the next barrier: the staging array is copied into the two ghost faces.\<close>

definition unstage :: "nat \<Rightarrow> thread \<Rightarrow> thread" where
  "unstage d t =
     (let r = lattice t;
          ws = face_loop r d (\<lambda>io i ig.
              [(cell MemIndEnd r d 0 io i ig, ghosts t (slot r d io i ig)),
               (cell MemIndEnd r d 1 io i ig, ghosts t (BSize r d + slot r d io i ig))]);
          c = index (kpm t);
          phi = write_all ws (phi_of t)
      in t\<lparr>kpm := (kpm t)\<lparr>v_data := (\<lambda>i. (v_data (kpm t) i)(c := phi i))\<rparr>\<rparr>)"

text \<open>
  The pass for one axis, by all threads. The barriers cut it into three parts; within a
  part each thread writes memory of its own only (its staging array, its stretch of the
  shared array, its vector), so the threads are served one after the other.
\<close>

definition exchange_axis :: "nat \<Rightarrow> world \<Rightarrow> world" where
  "exchange_axis d W =
     (let staged = map (stage d) (threads W);
          Global = foldl (publish d) (Global_ghosts W) staged;
          fetched = map (fetch d Global) staged
      in \<lparr>threads = map (unstage d) fetched, Global_ghosts = Global\<rparr>)"

definition Exchange_Boundaries :: "world \<Rightarrow> world" where
  "Exchange_Boundaries W = foldl (\<lambda>W d. exchange_axis d W) W [0..<2]"

subsection \<open>\<open>Multiply\<close> and \<open>Multiply2\<close> by all threads\<close>

text \<open>Running a step that may fail on every thread.\<close>

fun each_thread :: "(thread \<Rightarrow> failure + thread) \<Rightarrow> thread list \<Rightarrow> failure + thread list" where
  "each_thread step [] = Inr []"
| "each_thread step (t # ts) =
     bind_f (step t) (\<lambda>t'. bind_f (each_thread step ts) (\<lambda>ts'. Inr (t' # ts')))"

definition Multiply_thread :: "build \<Rightarrow> nat \<Rightarrow> thread \<Rightarrow> failure + thread" where
  "Multiply_thread B MULT t =
     bind_f (Multiply_local B MULT (lattice t) (hamiltonian t) (kpm t)) (\<lambda>kv. Inr (t\<lparr>kpm := kv\<rparr>))"

definition Multiply :: "build \<Rightarrow> nat \<Rightarrow> world \<Rightarrow> failure + world" where
  "Multiply B MULT W =
     bind_f (each_thread (Multiply_thread B MULT) (threads W))
       (\<lambda>ts. Inr (Exchange_Boundaries (W\<lparr>threads := ts\<rparr>)))"

definition Multiply2_thread :: "nat \<Rightarrow> thread \<Rightarrow> thread" where
  "Multiply2_thread MULT t = t\<lparr>kpm := Multiply2_local MULT (lattice t) (hamiltonian t) (kpm t)\<rparr>"

definition Multiply2 :: "nat \<Rightarrow> world \<Rightarrow> world" where
  "Multiply2 MULT W = Exchange_Boundaries (W\<lparr>threads := map (Multiply2_thread MULT) (threads W)\<rparr>)"


subsection \<open>Sites, and a small world\<close>

text \<open>The site an assignment writes.\<close>

fun target :: "op \<Rightarrow> nat" where
  "target (Init i) = i"
| "target (Add i a j b) = i"
| "target (Zero i) = i"

text \<open>
  The coordinates packed in a local site index, and the bulk of a thread's domain: the
  sites that are no ghost cells along either axis.
\<close>

definition x_of :: "LatticeStructure \<Rightarrow> nat \<Rightarrow> nat" where
  "x_of r i = i mod Ld r 0"

definition y_of :: "LatticeStructure \<Rightarrow> nat \<Rightarrow> nat" where
  "y_of r i = (i div Ld r 0) mod Ld r 1"

definition orb_of :: "LatticeStructure \<Rightarrow> nat \<Rightarrow> nat" where
  "orb_of r i = i div (Ld r 0 * Ld r 1)"

definition bulk :: "LatticeStructure \<Rightarrow> nat \<Rightarrow> bool" where
  "bulk r i \<longleftrightarrow>
     NGHOSTS \<le> x_of r i \<and> x_of r i < Ld r 0 - NGHOSTS \<and>
     NGHOSTS \<le> y_of r i \<and> y_of r i < Ld r 1 - NGHOSTS \<and> orb_of r i < Orb r"

text \<open>
  What the lattice guarantees about its sizes: the domain holds its ghost layers, and
  \<open>ld\<close> is the extent of the bulk.
\<close>

definition lattice_ok :: "LatticeStructure \<Rightarrow> bool" where
  "lattice_ok r \<longleftrightarrow>
     2 * NGHOSTS \<le> Ld r 0 \<and> 2 * NGHOSTS \<le> Ld r 1 \<and>
     ld r 0 = Ld r 0 - 2 * NGHOSTS \<and> ld r 1 = Ld r 1 - 2 * NGHOSTS"












subsection \<open>One site of the new slot\<close>

text \<open>
  What an assignment does to the amplitude \<open>x\<close> of the new slot at the site \<open>i\<close>, when
  the slot read as \<open>psi\<^sub>-\<^sub>1\<close> is another column, with the contents \<open>psi1\<close>; the slot read as
  \<open>psi\<^sub>-\<^sub>2\<close> is either the new slot itself (\<open>alias\<close>) or another column with the contents
  \<open>psi2\<close>.
\<close>

fun site_step :: "nat \<Rightarrow> bool \<Rightarrow> (nat \<Rightarrow> complex) \<Rightarrow> (nat \<Rightarrow> complex) \<Rightarrow> nat \<Rightarrow> complex \<Rightarrow> op
    \<Rightarrow> complex" where
  "site_step MULT alias psi1 psi2 i x (Init k) =
     (if k = i then - of_nat MULT * (if alias then x else psi2 i) else x)"
| "site_step MULT alias psi1 psi2 i x (Add k a j b) = (if k = i then x + a * psi1 j * b else x)"
| "site_step MULT alias psi1 psi2 i x (Zero k) = (if k = i then 0 else x)"

definition site_run :: "nat \<Rightarrow> bool \<Rightarrow> (nat \<Rightarrow> complex) \<Rightarrow> (nat \<Rightarrow> complex) \<Rightarrow> nat \<Rightarrow> op list
    \<Rightarrow> complex \<Rightarrow> complex" where
  "site_run MULT alias psi1 psi2 i ops x = foldl (site_step MULT alias psi1 psi2 i) x ops"

text \<open>A site lies in the tile at \<open>(i0, i1)\<close> of the orbital \<open>io\<close>.\<close>

definition in_tile :: "build \<Rightarrow> LatticeStructure \<Rightarrow> nat \<Rightarrow> nat \<Rightarrow> nat \<Rightarrow> nat \<Rightarrow> bool" where
  "in_tile B r i0 i1 io i \<longleftrightarrow>
     orb_of r i = io \<and> i0 \<le> x_of r i \<and> x_of r i < i0 + STRIDE B
       \<and> i1 \<le> y_of r i \<and> y_of r i < i1 + STRIDE B"

text \<open>
  The bulk is cut into whole tiles: \<open>STRIDE\<close> divides both bulk extents, and \<open>lStr\<close>
  counts the tiles along each axis.
\<close>

definition tiled :: "build \<Rightarrow> LatticeStructure \<Rightarrow> bool" where
  "tiled B r \<longleftrightarrow>
     0 < STRIDE B \<and> lattice_ok r \<and> STRIDE B dvd ld r 0 \<and> STRIDE B dvd ld r 1
       \<and> lStr r 0 = ld r 0 div STRIDE B \<and> lStr r 1 = ld r 1 div STRIDE B
       \<and> Nd r = Ld r 0 * Ld r 1"

text \<open>
  The assignments of the two loops over a tile when no pass throws: the rows start at
  \<open>j0 = io*basis[2] + i0 + i1*basis[1]\<close> and are \<open>basis[1]\<close> apart.
\<close>

definition tile_block :: "build \<Rightarrow> LatticeStructure \<Rightarrow> nat \<Rightarrow> nat \<Rightarrow> nat \<Rightarrow> (nat \<Rightarrow> nat \<Rightarrow> op list)
    \<Rightarrow> op list" where
  "tile_block B r i0 i1 io F =
     concat (map (\<lambda>k. concat (map (F (set_index r i0 i1 io + k * Ld r 0))
                [set_index r i0 i1 io + k * Ld r 0 ..< set_index r i0 i1 io + k * Ld r 0 + STRIDE B]))
       [0..<STRIDE B])"


subsection \<open>Hamiltonians without structural disorder\<close>

text \<open>
  The tile of the sweep that holds a bulk site: the coordinate of its corner along one
  axis, its number \<open>istr\<close>, and the first cell of the site's row in it (the index \<open>j\<close> from
  which the sweep computes the Peierls phase of the row).
\<close>

definition tile_origin :: "build \<Rightarrow> nat \<Rightarrow> nat" where
  "tile_origin B x = NGHOSTS + (x - NGHOSTS) div STRIDE B * STRIDE B"

definition tile_number :: "build \<Rightarrow> LatticeStructure \<Rightarrow> nat \<Rightarrow> nat" where
  "tile_number B r i =
     (y_of r i - NGHOSTS) div STRIDE B * lStr r 0 + (x_of r i - NGHOSTS) div STRIDE B"

definition row_start :: "build \<Rightarrow> LatticeStructure \<Rightarrow> nat \<Rightarrow> nat" where
  "row_start B r i = set_index r (tile_origin B (x_of r i)) (y_of r i) (orb_of r i)"

text \<open>
  The on-site energy that the Anderson pass reads for the site \<open>i\<close>, and whether both
  \<open>at\<close> of that pass find it.
\<close>

definition U_site :: "LatticeStructure \<Rightarrow> Hamiltonian \<Rightarrow> nat \<Rightarrow> complex" where
  "U_site r h i =
     (let io = orb_of r i; a = Anderson_orb_address h io in
      if 0 \<le> a then U_Anderson h ! nat (int i - (a - int io) * int (Nd r))
      else if a = - 1 then U_Orbital h ! io
      else 0)"

definition U_known :: "LatticeStructure \<Rightarrow> Hamiltonian \<Rightarrow> nat \<Rightarrow> bool" where
  "U_known r h i =
     (let io = orb_of r i; a = Anderson_orb_address h io in
      if 0 \<le> a then 0 \<le> int i - (a - int io) * int (Nd r)
          \<and> nat (int i - (a - int io) * int (Nd r)) < length (U_Anderson h)
      else if a = - 1 then io < length (U_Orbital h)
      else True)"

text \<open>The Peierls phase of the hopping \<open>ib\<close> out of the site \<open>i\<close>.\<close>

definition hop_phase :: "build \<Rightarrow> LatticeStructure \<Rightarrow> Hamiltonian \<Rightarrow> nat \<Rightarrow> nat \<Rightarrow> real" where
  "hop_phase B r h i ib =
     of_int (int (dist_hr (hr h) ib (orb_of r i) mod 3) - 1)
       * of_int (convertCoordinates r (row_start B r i) 1) * vect_pot r 0 1"

text \<open>
  The assignments of the sweep to one bulk site, in program order, when the site is no
  vacancy: initialisation, Anderson term, hoppings.
\<close>

definition site_ops :: "build \<Rightarrow> nat \<Rightarrow> LatticeStructure \<Rightarrow> Hamiltonian \<Rightarrow> nat \<Rightarrow> op list" where
  "site_ops B MULT r h i =
     Init i
     # (if 0 \<le> Anderson_orb_address h (orb_of r i) \<or> Anderson_orb_address h (orb_of r i) = - 1
        then [Add i (of_nat (MULT + 1)) i (U_site r h i)] else [])
     @ map (\<lambda>ib. Add i (of_nat (MULT + 1) * hopping (hr h) ib (orb_of r i))
                   (nat (int i + distance (hr h) ib (orb_of r i)))
                   (peierls2 B (hop_phase B r h i ib)))
         [0..<NHoppings (hr h) (orb_of r i)]"




text \<open>
  What the sweep relies on for a Hamiltonian without structural disorder: the bulk is
  cut into whole tiles, every tile is initialised inside the sweep and has its list of
  vacancies, which are bulk sites of that tile, and the Anderson pass finds the energy of
  every bulk site.
\<close>

definition regular :: "build \<Rightarrow> LatticeStructure \<Rightarrow> Hamiltonian \<Rightarrow> bool" where
  "regular B r h \<longleftrightarrow>
     tiled B r \<and> cross_mozaic_indexes h = [] \<and> hd_h h = []
     \<and> (\<forall>istr < lStr r 0 * lStr r 1.
          istr < length (cross_mozaic h) \<and> cross_mozaic h ! istr
          \<and> istr < length (position_V (hV h))
          \<and> (\<forall>k \<in> set (position_V (hV h) ! istr). bulk r k \<and> tile_number B r k = istr))
     \<and> (\<forall>i < Nd r * Orb r. bulk r i \<longrightarrow> U_known r h i)"

text \<open>
  No Anderson disorder, no vacancies and no magnetic field on top of that, and the
  tables \<open>NHoppings\<close>, \<open>t\<close> and \<open>d\<close> that \<open>Multiply2\<close> reads hold what \<open>hr\<close> holds.
\<close>

definition plain :: "build \<Rightarrow> LatticeStructure \<Rightarrow> Hamiltonian \<Rightarrow> bool" where
  "plain B r h \<longleftrightarrow>
     regular B r h
     \<and> (\<forall>io < Orb r. Anderson_orb_address h io < - 1)
     \<and> (\<forall>istr < lStr r 0 * lStr r 1. position_V (hV h) ! istr = [])
     \<and> vacancies_with_defects (hV h) = []
     \<and> (T_complex B \<longrightarrow> vect_pot r 0 1 = 0)
     \<and> (\<forall>io < Orb r. NHoppings_h h io = NHoppings (hr h) io
          \<and> (\<forall>ib < NHoppings (hr h) io. t_h h ib io = hopping (hr h) ib io
                \<and> d_h h ib io = distance (hr h) ib io))"

text \<open>
  The assignments of the sweep in one tile for one orbital, and in one tile, when no pass
  throws and there is no structural disorder.
\<close>

definition orbital_block :: "build \<Rightarrow> nat \<Rightarrow> LatticeStructure \<Rightarrow> Hamiltonian \<Rightarrow> nat \<Rightarrow> nat \<Rightarrow> nat
    \<Rightarrow> op list" where
  "orbital_block B MULT r h i0 i1 io =
     tile_block B r i0 i1 io (\<lambda>j i. [Init i])
     @ (if 0 \<le> Anderson_orb_address h io \<or> Anderson_orb_address h io = - 1
        then tile_block B r i0 i1 io (\<lambda>j i. [Add i (of_nat (MULT + 1)) i (U_site r h i)]) else [])
     @ concat (map (\<lambda>ib.
          tile_block B r i0 i1 io (\<lambda>j i.
            [Add i (of_nat (MULT + 1) * hopping (hr h) ib io) (nat (int i + distance (hr h) ib io))
               (peierls2 B (of_int (int (dist_hr (hr h) ib io mod 3) - 1)
                  * of_int (convertCoordinates r j 1) * vect_pot r 0 1))]))
         [0..<NHoppings (hr h) io])"

definition tile_schedule :: "build \<Rightarrow> nat \<Rightarrow> LatticeStructure \<Rightarrow> Hamiltonian \<Rightarrow> nat \<Rightarrow> nat \<Rightarrow> op list" where
  "tile_schedule B MULT r h i0 i1 =
     concat (map (orbital_block B MULT r h i0 i1) [0..<Orb r])
     @ map Zero (position_V (hV h)
         ! ((i1 - NGHOSTS) div STRIDE B * lStr r 0 + (i0 - NGHOSTS) div STRIDE B))"

definition sweep_schedule :: "build \<Rightarrow> nat \<Rightarrow> LatticeStructure \<Rightarrow> Hamiltonian \<Rightarrow> op list" where
  "sweep_schedule B MULT r h =
     concat (map (\<lambda>k1. concat (map (\<lambda>k0.
         tile_schedule B MULT r h (NGHOSTS + k0 * STRIDE B) (NGHOSTS + k1 * STRIDE B))
       [0..<lStr r 0])) [0..<lStr r 1])"


subsection \<open>A world with one tile of four sites\<close>

text \<open>
  One thread on a 6 by 6 domain with one orbital, built with \<open>STRIDE = 2\<close>: the bulk is
  the tile of the sites 14, 15, 20 and 21. One hopping of amplitude 2 to the next site
  along the first axis; the orbital energy 3; the site 21 a vacancy. Two slots, the
  current one holding the site index and the other one 5.
\<close>

definition small_B :: build where
  "small_B = \<lparr>STRIDE = 2, T_complex = False\<rparr>"

definition small_r :: LatticeStructure where
  "small_r = \<lparr>Ld = (\<lambda>k. if k = 2 then 1 else 6), ld = (\<lambda>k. 2), lStr = (\<lambda>k. 1), Orb = 1, Nd = 36,
     thread_id = 0, vect_pot = (\<lambda>a b. 0), convertCoordinates = (\<lambda>i a. 0)\<rparr>"

definition small_h :: Hamiltonian where
  "small_h = \<lparr>cross_mozaic = [True], cross_mozaic_indexes = [], Anderson_orb_address = (\<lambda>io. - 1),
     U_Anderson = [], U_Orbital = [3],
     hr = \<lparr>NHoppings = (\<lambda>io. 1), distance = (\<lambda>ib io. 1), hopping = (\<lambda>ib io. 2), dist_hr = (\<lambda>ib io. 5)\<rparr>,
     hd_h = [], hV = \<lparr>position_V = [[21]], vacancies_with_defects = []\<rparr>,
     NHoppings_h = (\<lambda>io. 1), t_h = (\<lambda>ib io. 2), d_h = (\<lambda>ib io. 1)\<rparr>"

definition small_kpm :: KPM_Vector where
  "small_kpm = \<lparr>index = 0, memory = 2, v_data = (\<lambda>i c. if c = 0 then of_nat i else 5)\<rparr>"

definition small_W :: "LatticeStructure \<Rightarrow> Hamiltonian \<Rightarrow> KPM_Vector \<Rightarrow> world" where
  "small_W r h kv =
     \<lparr>threads = [\<lparr>lattice = r, hamiltonian = h, block = (\<lambda>d b. 0), kpm = kv, ghosts = (\<lambda>a. 0)\<rparr>],
      Global_ghosts = (\<lambda>a. 0)\<rparr>"



text \<open>The hopping alone, and a vector of one slot holding 7 everywhere.\<close>

definition plain_h :: Hamiltonian where
  "plain_h = small_h\<lparr>Anderson_orb_address := (\<lambda>io. - 2),
     hV := \<lparr>position_V = [[]], vacancies_with_defects = []\<rparr>\<rparr>"

definition one_kpm :: KPM_Vector where
  "one_kpm = \<lparr>index = 0, memory = 1, v_data = (\<lambda>i c. 7)\<rparr>"


subsection \<open>Threads on identical subdomains\<close>

text \<open>
  The sizes that the tables of the exchange are computed from, and a team of threads as
  the parallel region runs it: every thread has the sizes of \<open>r\<close>, thread \<open>k\<close> has the
  \<open>thread_id\<close> \<open>k\<close>, and the neighbour map names threads of the team.
\<close>

definition shape :: "LatticeStructure \<Rightarrow> nat \<times> nat \<times> nat \<times> nat \<times> nat" where
  "shape r = (Ld r 0, Ld r 1, ld r 0, ld r 1, Orb r)"

definition team :: "LatticeStructure \<Rightarrow> world \<Rightarrow> bool" where
  "team r W \<longleftrightarrow>
     (\<forall>k < length (threads W).
        shape (lattice (threads W ! k)) = shape r
        \<and> thread_id (lattice (threads W ! k)) = k
        \<and> (\<forall>d < 2. \<forall>b < 2. block (threads W ! k) d b < length (threads W)))"

text \<open>
  The bulk is at least as wide as the ghost layer along both axes, and the orbitals fit
  the tables \<open>MemIndBeg\<close> and \<open>MemIndEnd\<close>.
\<close>

definition exchangeable :: "LatticeStructure \<Rightarrow> bool" where
  "exchangeable r \<longleftrightarrow>
     lattice_ok r \<and> 3 * NGHOSTS \<le> Ld r 0 \<and> 3 * NGHOSTS \<le> Ld r 1 \<and> Orb r \<le> 2"

text \<open>
  Two threads side by side along the first axis with periodic boundaries, on 6 by 6
  domains with one orbital: each is the other's neighbour on both sides along the first
  axis and its own neighbour along the second. Thread \<open>k\<close> holds \<open>100 k + i\<close> at the site \<open>i\<close>.
\<close>

definition pair_thread :: "nat \<Rightarrow> thread" where
  "pair_thread k =
     \<lparr>lattice = small_r\<lparr>thread_id := k\<rparr>, hamiltonian = plain_h,
      block = (\<lambda>d b. if d = 0 then 1 - k else k),
      kpm = \<lparr>index = 0, memory = 2, v_data = (\<lambda>i c. of_nat (100 * k + i))\<rparr>,
      ghosts = (\<lambda>a. 0)\<rparr>"

definition pair_W :: world where
  "pair_W = \<lparr>threads = [pair_thread 0, pair_thread 1], Global_ghosts = (\<lambda>a. 0)\<rparr>"


section \<open>Exit codes: what the code does\<close>

text \<open>
  C9. The claim: exit code 0 on normal completion, non-zero on every configuration error.
  The code: a run whose simulation comes back returns 1, and a dimension or a precision out
  of range leaves with \<open>exit(0)\<close>; only the magnetic field with real amplitudes leaves
  with \<open>exit(1)\<close>.
\<close>

theorem main_exit_codes:
  "exit_code (main (\<lambda>_. None) \<lparr>is_complex = 1, precision = 1, dim = 2, MagneticField = None\<rparr>) = 1
   \<and> exit_code (main G \<lparr>is_complex = 1, precision = 1, dim = 4, MagneticField = None\<rparr>) = 0
   \<and> exit_code (main G \<lparr>is_complex = 1, precision = 3, dim = 2, MagneticField = None\<rparr>) = 0
   \<and> exit_code (main G \<lparr>is_complex = 0, precision = 1, dim = 2, MagneticField = Some 1\<rparr>) = 1"
  by (simp add: main_def instantiated_def)


section \<open>The running mean is the arithmetic mean\<close>

lemma randV_loop_snd: "snd (randV_loop (g, a) xs) = a + length xs"
  by (induction xs arbitrary: g a) auto

lemma welford_inv: "of_nat (a + 1) * welford g x a = of_nat a * g + (x :: 'a::field_char_0)"
proof -
  have nz: "(of_nat (a + 1) :: 'a) \<noteq> 0" unfolding of_nat_eq_0_iff by simp
  have "of_nat (a + 1) * welford g x a = of_nat (a + 1) * g + (x - g)"
    unfolding welford_def using nz by (simp add: distrib_left)
  also have "\<dots> = of_nat a * g + x" by (simp add: algebra_simps)
  finally show ?thesis .
qed

lemma randV_loop_inv:
  "of_nat (a + length xs) * fst (randV_loop (g, a) xs) = of_nat a * g + sum_list (xs :: 'a::field_char_0 list)"
proof (induction xs arbitrary: g a)
  case Nil
  show ?case by simp
next
  case (Cons x xs)
  have "of_nat (a + length (x # xs)) * fst (randV_loop (g, a) (x # xs))
      = of_nat ((a + 1) + length xs) * fst (randV_loop (welford g x a, a + 1) xs)" by simp
  also have "\<dots> = of_nat (a + 1) * welford g x a + sum_list xs" by (rule Cons.IH)
  also have "\<dots> = of_nat a * g + x + sum_list xs" by (simp only: welford_inv)
  finally show ?case by (simp add: add.assoc)
qed

lemma disorder_loop_snd: "snd (disorder_loop s xss) = snd s + length (concat xss)"
proof (induction xss arbitrary: s)
  case Nil show ?case by simp
next
  case (Cons xs xss)
  obtain g a where s: "s = (g, a)" by (cases s)
  show ?case using Cons.IH[of "randV_loop s xs"] randV_loop_snd[of g a xs] s by simp
qed

lemma disorder_loop_inv:
  "of_nat (snd s + length (concat xss)) * fst (disorder_loop s xss)
     = of_nat (snd s) * fst s + sum_list (concat (xss :: 'a::field_char_0 list list))"
proof (induction xss arbitrary: s)
  case Nil show ?case by simp
next
  case (Cons xs xss)
  obtain g a where s: "s = (g, a)" by (cases s)
  let ?s' = "randV_loop s xs"
  have a': "snd ?s' = a + length xs" using randV_loop_snd[of g a xs] s by simp
  have "of_nat (snd s + length (concat (xs # xss))) * fst (disorder_loop s (xs # xss))
      = of_nat (snd ?s' + length (concat xss)) * fst (disorder_loop ?s' xss)"
    using a' s by (simp add: add.assoc)
  also have "\<dots> = of_nat (snd ?s') * fst ?s' + sum_list (concat xss)" by (rule Cons.IH)
  also have "\<dots> = of_nat a * g + sum_list xs + sum_list (concat xss)"
    using randV_loop_inv[of a xs g] a' s by simp
  finally show ?case using s by (simp add: add.assoc)
qed

lemma running_mean_times:
  "of_nat (length (concat xss)) * running_mean xss = sum_list (concat (xss :: 'a::field_char_0 list list))"
  using disorder_loop_inv[of "(0, 0)" xss] by (simp add: running_mean_def)

text \<open>
  C7. Folding the samples \<open>x\<^sub>1, \<dots>, x\<^sub>R\<close> in with the update
  \<open>mu \<leftarrow> mu + (x - mu)/(A+1)\<close>, \<open>A\<close> counting the samples, leaves their arithmetic mean
  (exact arithmetic, any field of characteristic 0); so one run over \<open>R + R'\<close> samples is
  the combination of a run over \<open>R\<close> and a run over \<open>R'\<close> samples with the weights
  \<open>R/(R+R')\<close> and \<open>R'/(R+R')\<close>.
\<close>

theorem running_mean_is_mean:
  fixes xss yss :: "'a::field_char_0 list list"
  assumes "concat xss \<noteq> []" and "concat yss \<noteq> []"
  shows "running_mean xss = sum_list (concat xss) / of_nat (length (concat xss))
       \<and> running_mean (xss @ yss) =
           (of_nat (length (concat xss)) * running_mean xss + of_nat (length (concat yss)) * running_mean yss)
             / of_nat (length (concat xss) + length (concat yss))"
proof
  have nx: "(of_nat (length (concat xss)) :: 'a) \<noteq> 0" using assms(1) by simp
  show "running_mean xss = sum_list (concat xss) / of_nat (length (concat xss))"
    using running_mean_times[of xss] nx by (simp add: field_simps)
  have nxy: "(of_nat (length (concat xss) + length (concat yss)) :: 'a) \<noteq> 0"
    using assms(1) by (simp only: of_nat_eq_0_iff) simp
  have "of_nat (length (concat xss) + length (concat yss)) * running_mean (xss @ yss)
        = sum_list (concat xss) + sum_list (concat yss)"
    using running_mean_times[of "xss @ yss"] by simp
  also have "\<dots> = of_nat (length (concat xss)) * running_mean xss + of_nat (length (concat yss)) * running_mean yss"
    by (simp only: running_mean_times)
  finally show "running_mean (xss @ yss) =
           (of_nat (length (concat xss)) * running_mean xss + of_nat (length (concat yss)) * running_mean yss)
             / of_nat (length (concat xss) + length (concat yss))"
    using nxy by (simp add: nonzero_eq_divide_eq mult.commute)
qed

theorem running_mean_is_mean_witness:
  "concat [[1, 2], [6 :: rat]] \<noteq> [] \<and> concat [[5 :: rat]] \<noteq> []
   \<and> running_mean [[1, 2], [6 :: rat]] = 3
   \<and> running_mean ([[1, 2], [6]] @ [[5 :: rat]]) = 7 / 2"
  using running_mean_is_mean[of "[[1, 2], [6 :: rat]]" "[[5 :: rat]]"]
  by (simp add: running_mean_def welford_def)


section \<open>Direction strings: what is parsed and what aborts\<close>

lemma spec_factors_nonempty: "spec_factors s \<noteq> []"
  by (induction s) (auto split: list.splits)

lemma spec_factors_no_comma: "CHR '','' \<notin> set s \<Longrightarrow> spec_factors s = [s]"
  by (induction s) auto

lemma spec_factors_prefix:
  "CHR '','' \<notin> set pre \<Longrightarrow> spec_factors (pre @ CHR '','' # rest) = pre # spec_factors rest"
  by (induction pre) auto

lemma find_char_None: "find_char c s = None \<Longrightarrow> c \<notin> set s"
  by (induction s) (auto split: if_splits)

lemma find_char_Some:
  "find_char c s = Some k \<Longrightarrow> c \<notin> set (take k s) \<and> s = take k s @ c # drop (k + 1) s"
proof (induction s arbitrary: k)
  case Nil
  then show ?case by simp
next
  case (Cons x xs)
  show ?case
  proof (cases "x = c")
    case True
    with Cons.prems show ?thesis by simp
  next
    case False
    with Cons.prems obtain k' where k': "find_char c xs = Some k'" "k = Suc k'" by auto
    from Cons.IH[OF k'(1)] False k'(2) show ?thesis by simp
  qed
qed

lemma split_loop_spec: "split_loop strings s = strings @ spec_factors s"
proof (induction strings s rule: split_loop.induct)
  case (1 strings s)
  show ?case
  proof (cases "find_char CHR '','' s")
    case None
    then have "CHR '','' \<notin> set s" by (rule find_char_None)
    then have "spec_factors s = [s]" by (rule spec_factors_no_comma)
    with None show ?thesis by (simp add: split_loop.simps[of strings s])
  next
    case (Some k)
    from find_char_Some[OF Some]
    have nc: "CHR '','' \<notin> set (take k s)" and s: "s = take k s @ CHR '','' # drop (k + 1) s"
      by simp_all
    have "spec_factors s = take k s # spec_factors (drop (k + 1) s)"
      using spec_factors_prefix[OF nc, of "drop (k + 1) s"] s by simp
    with "1.IH"[OF Some] Some show ?thesis by (simp add: split_loop.simps[of strings s])
  qed
qed

lemma inner_loop_spec:
  "inner_loop temp s =
     (if list_all (\<lambda>c. c = CHR ''x'' \<or> c = CHR ''y'') s then Inr (temp @ map spec_axis s) else Inl 0)"
  by (induction s arbitrary: temp) (auto simp: spec_axis_def)

lemma outer_loop_spec:
  "outer_loop indices strings =
     (if list_all (list_all (\<lambda>c. c = CHR ''x'' \<or> c = CHR ''y'')) strings
      then Inr (indices @ map (map spec_axis) strings) else Inl 0)"
  by (induction strings arbitrary: indices) (auto simp: inner_loop_spec)

lemma legal_factors:
  "list_all (list_all (\<lambda>c. c = CHR ''x'' \<or> c = CHR ''y'')) (spec_factors s) \<longleftrightarrow> legal s"
proof (induction s)
  case Nil
  show ?case by (simp add: legal_def)
next
  case (Cons c cs)
  obtain f fs where f: "spec_factors cs = f # fs"
    using spec_factors_nonempty[of cs] by (cases "spec_factors cs") auto
  show ?case using Cons f by (auto simp: legal_def)
qed

text \<open>
  C8, as amended. \<open>process_string\<close> splits the direction string into its factors on
  commas and maps each factor to its list of axis indices with \<open>'x'\<close> to 0 and \<open>'y'\<close>
  to 1, an empty factor giving the empty list; only \<open>x\<close>, \<open>y\<close> and comma are legal, and on
  a string with any other character, \<open>z\<close> included, the process is left through \<open>exit(0)\<close>.
\<close>

theorem process_string_xy:
  "process_string s = (if legal s then Inr (map (map spec_axis) (spec_factors s)) else Inl 0)"
  by (simp add: process_string_def split_loop_spec outer_loop_spec legal_factors)

theorem process_string_xy_witness:
  "legal ''xx,y'' \<and> process_string ''xx,y'' = Inr [[0, 0], [1]]
   \<and> \<not> legal ''x,a'' \<and> process_string ''x,a'' = Inl 0"
  using process_string_xy[of "''xx,y''"] process_string_xy[of "''x,a''"]
  by (simp add: legal_def spec_axis_def)

text \<open>
  C8 as stated maps \<open>'z'\<close> to 2, so that \<open>"z"\<close> would parse to the one factor \<open>[2]\<close>; the
  code leaves the process instead.
\<close>

theorem process_string_z_counterexample:
  "process_string ''z'' = Inl 0 \<and> process_string ''z'' \<noteq> Inr [[2]]"
  by (simp add: process_string_def split_loop.simps)

text \<open>The factors are what the words "split on commas" say.\<close>

lemma spec_factors_join: "join_commas (spec_factors s) = s"
proof (induction s)
  case Nil show ?case by simp
next
  case (Cons c cs)
  obtain f fs where f: "spec_factors cs = f # fs"
    using spec_factors_nonempty[of cs] by (cases "spec_factors cs") auto
  show ?case using Cons f by (cases fs) auto
qed

lemma spec_factors_comma_free: "f \<in> set (spec_factors s) \<Longrightarrow> CHR '','' \<notin> set f"
proof (induction s arbitrary: f)
  case Nil then show ?case by simp
next
  case (Cons c cs)
  obtain g gs where g: "spec_factors cs = g # gs"
    using spec_factors_nonempty[of cs] by (cases "spec_factors cs") auto
  show ?case using Cons g by (auto split: if_splits)
qed


section \<open>The two-dimensional deposit\<close>



lemma index_div: "n < N \<Longrightarrow> (n + N * m) div N = (m::nat)"
  by simp

lemma index_mod: "n < N \<Longrightarrow> (n + N * m) mod N = (n::nat)"
  by simp












section \<open>The three-dimensional deposit\<close>




















section \<open>What \<open>Multiply\<close> leaves alone\<close>

subsection \<open>Frame of the assignments\<close>

lemma exec_op_other_column: "c \<noteq> c0 \<Longrightarrow> exec_op MULT c0 c1 c2 w op i c = w i c"
  by (cases op) simp_all


lemma exec_ops_Nil: "exec_ops MULT c0 c1 c2 [] w = w"
  by (simp add: exec_ops_def)

lemma exec_ops_Cons:
  "exec_ops MULT c0 c1 c2 (op # ops) w = exec_ops MULT c0 c1 c2 ops (exec_op MULT c0 c1 c2 w op)"
  by (simp add: exec_ops_def)


lemma exec_ops_other_column: "c \<noteq> c0 \<Longrightarrow> exec_ops MULT c0 c1 c2 ops w i c = w i c"
  by (induction ops arbitrary: w) (simp_all add: exec_ops_Nil exec_ops_Cons exec_op_other_column)


lemma run_ops_frame:
  "index (run_ops MULT ops kv) = index kv" "memory (run_ops MULT ops kv) = memory kv"
  "c \<noteq> index kv \<Longrightarrow> v_data (run_ops MULT ops kv) i c = v_data kv i c"
  by (simp_all add: run_ops_def col0_def exec_ops_other_column)

lemma inc_index_frame:
  "index (inc_index kv) = (index kv + 1) mod memory kv" "memory (inc_index kv) = memory kv"
  "v_data (inc_index kv) = v_data kv"
  by (simp_all add: inc_index_def)


lemma Multiply2_local_frame:
  "index (Multiply2_local MULT r h kv) = (index kv + 1) mod memory kv"
  "memory (Multiply2_local MULT r h kv) = memory kv"
  "c \<noteq> index (Multiply2_local MULT r h kv) \<Longrightarrow> v_data (Multiply2_local MULT r h kv) i c = v_data kv i c"
  by (simp_all add: Multiply2_local_def run_ops_frame inc_index_frame)

subsection \<open>Running all threads\<close>

lemma each_thread_Inr:
  "each_thread step ts = Inr ts' \<Longrightarrow>
     length ts' = length ts \<and> (\<forall>k < length ts. step (ts ! k) = Inr (ts' ! k))"
proof (induction ts arbitrary: ts')
  case Nil
  then show ?case by simp
next
  case (Cons t ts)
  from Cons.prems obtain t1 ts1 where s: "step t = Inr t1" "each_thread step ts = Inr ts1" "ts' = t1 # ts1"
    by (auto simp: bind_f_def split: sum.splits)
  from Cons.IH[OF s(2)] have IH: "length ts1 = length ts" "\<forall>k < length ts. step (ts ! k) = Inr (ts1 ! k)"
    by simp_all
  show ?case
  proof (intro conjI allI impI)
    show "length ts' = length (t # ts)" using s(3) IH(1) by simp
    fix k assume "k < length (t # ts)"
    then show "step ((t # ts) ! k) = Inr (ts' ! k)" using s IH(2) by (cases k) simp_all
  qed
qed

lemma each_thread_total:
  "(\<And>t. t \<in> set ts \<Longrightarrow> \<exists>t'. step t = Inr t') \<Longrightarrow> \<exists>ts'. each_thread step ts = Inr ts'"
proof (induction ts)
  case Nil
  show ?case by simp
next
  case (Cons t ts)
  from Cons.prems[of t] obtain t1 where "step t = Inr t1" by auto
  moreover from Cons.IH Cons.prems obtain ts1 where "each_thread step ts = Inr ts1" by auto
  ultimately show ?case by (simp add: bind_f_def)
qed

subsection \<open>Frame of the halo exchange\<close>

lemma stage_frame: "kpm (stage d t) = kpm t" "lattice (stage d t) = lattice t"
  "block (stage d t) = block t" "hamiltonian (stage d t) = hamiltonian t"
  by (simp_all add: stage_def Let_def)

lemma fetch_frame: "kpm (fetch d G t) = kpm t" "lattice (fetch d G t) = lattice t"
  "block (fetch d G t) = block t" "hamiltonian (fetch d G t) = hamiltonian t"
  by (simp_all add: fetch_def Let_def)

lemma unstage_frame:
  "index (kpm (unstage d t)) = index (kpm t)" "memory (kpm (unstage d t)) = memory (kpm t)"
  "lattice (unstage d t) = lattice t" "block (unstage d t) = block t"
  "hamiltonian (unstage d t) = hamiltonian t"
  "c \<noteq> index (kpm t) \<Longrightarrow> v_data (kpm (unstage d t)) i c = v_data (kpm t) i c"
  by (simp_all add: unstage_def Let_def)

lemma exchange_axis_length: "length (threads (exchange_axis d W)) = length (threads W)"
  by (simp add: exchange_axis_def Let_def)

lemma exchange_axis_thread:
  "k < length (threads W) \<Longrightarrow>
     threads (exchange_axis d W) ! k
       = unstage d (fetch d (foldl (publish d) (Global_ghosts W) (map (stage d) (threads W)))
           (stage d (threads W ! k)))"
  by (simp add: exchange_axis_def Let_def)

lemma exchange_axis_frame:
  assumes "k < length (threads W)"
  shows "index (kpm (threads (exchange_axis d W) ! k)) = index (kpm (threads W ! k))"
    "memory (kpm (threads (exchange_axis d W) ! k)) = memory (kpm (threads W ! k))"
    "lattice (threads (exchange_axis d W) ! k) = lattice (threads W ! k)"
    "block (threads (exchange_axis d W) ! k) = block (threads W ! k)"
    "hamiltonian (threads (exchange_axis d W) ! k) = hamiltonian (threads W ! k)"
    "c \<noteq> index (kpm (threads W ! k)) \<Longrightarrow>
       v_data (kpm (threads (exchange_axis d W) ! k)) i c = v_data (kpm (threads W ! k)) i c"
  using assms by (simp_all add: exchange_axis_thread unstage_frame fetch_frame stage_frame)

lemma Exchange_Boundaries_unfold: "Exchange_Boundaries W = exchange_axis 1 (exchange_axis 0 W)"
  by (simp add: Exchange_Boundaries_def upt_rec)


lemma Exchange_Boundaries_frame:
  assumes "k < length (threads W)"
  shows "index (kpm (threads (Exchange_Boundaries W) ! k)) = index (kpm (threads W ! k))"
    "memory (kpm (threads (Exchange_Boundaries W) ! k)) = memory (kpm (threads W ! k))"
    "lattice (threads (Exchange_Boundaries W) ! k) = lattice (threads W ! k)"
    "block (threads (Exchange_Boundaries W) ! k) = block (threads W ! k)"
    "hamiltonian (threads (Exchange_Boundaries W) ! k) = hamiltonian (threads W ! k)"
    "c \<noteq> index (kpm (threads W ! k)) \<Longrightarrow>
       v_data (kpm (threads (Exchange_Boundaries W) ! k)) i c = v_data (kpm (threads W ! k)) i c"
  using assms
  by (simp_all add: Exchange_Boundaries_unfold exchange_axis_frame exchange_axis_length)


subsection \<open>Coordinates\<close>

lemma set_index_eq: "set_index r x y io = x + Ld r 0 * (y + Ld r 1 * io)"
  by (simp add: set_index_def basis_def algebra_simps)

lemma decode_site:
  assumes "x < Ld r 0" "y < Ld r 1"
  shows "x_of r (set_index r x y io) = x" "y_of r (set_index r x y io) = y"
    "orb_of r (set_index r x y io) = io"
proof -
  show "x_of r (set_index r x y io) = x" using assms(1) by (simp add: x_of_def set_index_eq)
  have d: "(x + Ld r 0 * (y + Ld r 1 * io)) div Ld r 0 = y + Ld r 1 * io"
    using assms(1) by simp
  have "y_of r (set_index r x y io) = (y + Ld r 1 * io) mod Ld r 1"
    unfolding y_of_def set_index_eq d ..
  then show "y_of r (set_index r x y io) = y" using assms(2) by simp
  have "(x + Ld r 0 * (y + Ld r 1 * io)) div (Ld r 0 * Ld r 1)
      = ((x + Ld r 0 * (y + Ld r 1 * io)) div Ld r 0) div Ld r 1"
    by (simp add: div_mult2_eq)
  also have "\<dots> = (y + Ld r 1 * io) div Ld r 1" unfolding d ..
  also have "\<dots> = io" using assms(2) by simp
  finally show "orb_of r (set_index r x y io) = io" by (simp add: orb_of_def set_index_eq)
qed

lemma write_all_Nil: "write_all [] f = f"
  by (simp add: write_all_def)

lemma write_all_append: "write_all (xs @ ys) f = write_all ys (write_all xs f)"
  by (simp add: write_all_def)

lemma write_all_other: "a \<notin> fst ` set ws \<Longrightarrow> write_all ws f a = f a"
proof (induction ws arbitrary: f)
  case Nil
  show ?case by (simp add: write_all_def)
next
  case (Cons w ws)
  obtain a' x where w: "w = (a', x)" by (cases w)
  have "write_all (w # ws) f = write_all ws (f(a' := x))" by (simp add: write_all_def w)
  with Cons w show ?case by auto
qed

lemma face_loop_mem:
  "w \<in> set (face_loop r d body) \<longleftrightarrow>
     (\<exists>io i ig. io < Orb r \<and> i < max_d r d \<and> ig < NGHOSTS \<and> w \<in> set (body io i ig))"
proof -
  have "w \<in> set (face_loop r d body) \<longleftrightarrow>
      (\<exists>io\<in>{0..<Orb r}. \<exists>i\<in>{0..<max_d r d}. \<exists>ig\<in>{0..<NGHOSTS}. w \<in> set (body io i ig))"
    by (simp add: face_loop_def)
  also have "\<dots> \<longleftrightarrow> (\<exists>io i ig. io < Orb r \<and> i < max_d r d \<and> ig < NGHOSTS \<and> w \<in> set (body io i ig))"
    unfolding Bex_def atLeastLessThan_iff by blast
  finally show ?thesis .
qed

lemma ghost_cell_coordinates:
  assumes ok: "lattice_ok r" and d: "d < 2" and b: "b < 2"
    and i: "i < max_d r d" and ig: "ig < NGHOSTS"
  shows "\<exists>x y. x < Ld r 0 \<and> y < Ld r 1 \<and> cell MemIndEnd r d b io i ig = set_index r x y io
           \<and> (x < NGHOSTS \<or> Ld r 0 - NGHOSTS \<le> x \<or> y < NGHOSTS \<or> Ld r 1 - NGHOSTS \<le> y)"
proof -
  from ok have L: "2 * NGHOSTS \<le> Ld r 0" "2 * NGHOSTS \<le> Ld r 1" "ld r 1 = Ld r 1 - 2 * NGHOSTS"
    by (simp_all add: lattice_ok_def)
  consider "d = 0" "b = 0" | "d = 0" "b = 1" | "d = 1" "b = 0" | "d = 1" "b = 1"
    using d b by linarith
  then show ?thesis
  proof cases
    case 1
    have "cell MemIndEnd r d b io i ig = set_index r ig (NGHOSTS + i) io"
      using 1 by (simp add: cell_def MemIndEnd_def stride_def stride_ghosts_def set_index_eq algebra_simps)
    moreover have "ig < Ld r 0" "NGHOSTS + i < Ld r 1"
      using L i ig 1 by (simp_all add: max_d_def)
    ultimately show ?thesis using ig by blast
  next
    case 2
    have "cell MemIndEnd r d b io i ig = set_index r (Ld r 0 - NGHOSTS + ig) (NGHOSTS + i) io"
      using 2 by (simp add: cell_def MemIndEnd_def stride_def stride_ghosts_def set_index_eq algebra_simps)
    moreover have "Ld r 0 - NGHOSTS + ig < Ld r 0" "NGHOSTS + i < Ld r 1"
      using L i ig 2 by (simp_all add: max_d_def)
    moreover have "Ld r 0 - NGHOSTS \<le> Ld r 0 - NGHOSTS + ig" by simp
    ultimately show ?thesis by blast
  next
    case 3
    have "cell MemIndEnd r d b io i ig = set_index r i ig io"
      using 3 by (simp add: cell_def MemIndEnd_def stride_def stride_ghosts_def set_index_eq algebra_simps)
    moreover have "i < Ld r 0" "ig < Ld r 1"
      using L i ig 3 by (simp_all add: max_d_def)
    ultimately show ?thesis using ig by blast
  next
    case 4
    have "cell MemIndEnd r d b io i ig = set_index r i (Ld r 1 - NGHOSTS + ig) io"
      using 4 by (simp add: cell_def MemIndEnd_def stride_def stride_ghosts_def set_index_eq algebra_simps)
    moreover have "i < Ld r 0" "Ld r 1 - NGHOSTS + ig < Ld r 1"
      using L i ig 4 by (simp_all add: max_d_def)
    moreover have "Ld r 1 - NGHOSTS \<le> Ld r 1 - NGHOSTS + ig" by simp
    ultimately show ?thesis by blast
  qed
qed

lemma ghost_cell_not_bulk:
  assumes "lattice_ok r" "d < 2" "b < 2" "i < max_d r d" "ig < NGHOSTS"
  shows "\<not> bulk r (cell MemIndEnd r d b io i ig)"
proof -
  from ghost_cell_coordinates[OF assms, of io] obtain x y where
    xy: "x < Ld r 0" "y < Ld r 1" "cell MemIndEnd r d b io i ig = set_index r x y io"
      "x < NGHOSTS \<or> Ld r 0 - NGHOSTS \<le> x \<or> y < NGHOSTS \<or> Ld r 1 - NGHOSTS \<le> y"
    by blast
  show ?thesis using xy(4) by (auto simp: bulk_def xy(3) decode_site[OF xy(1,2)])
qed

lemma unstage_bulk:
  assumes ok: "lattice_ok (lattice t)" and d: "d < 2" and bk: "bulk (lattice t) i"
  shows "v_data (kpm (unstage d t)) i c = v_data (kpm t) i c"
proof (cases "c = index (kpm t)")
  case False
  then show ?thesis by (simp add: unstage_frame)
next
  case True
  let ?r = "lattice t"
  let ?ws = "face_loop ?r d (\<lambda>io i ig.
              [(cell MemIndEnd ?r d 0 io i ig, ghosts t (slot ?r d io i ig)),
               (cell MemIndEnd ?r d 1 io i ig, ghosts t (BSize ?r d + slot ?r d io i ig))])"
  have "i \<notin> fst ` set ?ws"
  proof
    assume "i \<in> fst ` set ?ws"
    then obtain x where "(i, x) \<in> set ?ws" by auto
    then obtain io k ig where k: "k < max_d ?r d" "ig < NGHOSTS"
      and "i = cell MemIndEnd ?r d 0 io k ig \<or> i = cell MemIndEnd ?r d 1 io k ig"
      unfolding face_loop_mem by auto
    then show False
      using ghost_cell_not_bulk[OF ok d _ k, of 0 io] ghost_cell_not_bulk[OF ok d _ k, of 1 io] bk
      by auto
  qed
  then have "write_all ?ws (phi_of t) i = phi_of t i" by (rule write_all_other)
  then show ?thesis using True by (simp add: unstage_def Let_def phi_of_def)
qed

lemma exchange_axis_bulk:
  assumes "k < length (threads W)" "lattice_ok (lattice (threads W ! k))" "d < 2"
    "bulk (lattice (threads W ! k)) i"
  shows "v_data (kpm (threads (exchange_axis d W) ! k)) i c = v_data (kpm (threads W ! k)) i c"
  using assms by (simp add: exchange_axis_thread unstage_bulk fetch_frame stage_frame)

lemma Exchange_Boundaries_bulk:
  assumes "k < length (threads W)" "lattice_ok (lattice (threads W ! k))"
    "bulk (lattice (threads W ! k)) i"
  shows "v_data (kpm (threads (Exchange_Boundaries W) ! k)) i c = v_data (kpm (threads W ! k)) i c"
  using assms
  by (simp add: Exchange_Boundaries_unfold exchange_axis_bulk exchange_axis_frame exchange_axis_length)


section \<open>The ring buffer under \<open>Multiply\<close>\<close>







lemma colM1_other:
  assumes "2 \<le> memory kv" "index kv < memory kv"
  shows "colM1 kv \<noteq> index kv"
proof (cases "index kv = 0")
  case True
  have "(int (memory kv) - 1) mod int (memory kv) = int (memory kv) - 1"
    using assms(1) by (intro mod_pos_pos_trivial) simp_all
  then have "colM1 kv = nat (int (memory kv) - 1)" using True by (simp only: colM1_def) simp
  then show ?thesis using True assms(1) by simp
next
  case False
  have "(int (memory kv) + int (index kv) - 1) mod int (memory kv)
      = (int (index kv) - 1 + int (memory kv)) mod int (memory kv)"
    by (simp add: algebra_simps)
  also have "\<dots> = (int (index kv) - 1) mod int (memory kv)" by simp
  also have "\<dots> = int (index kv) - 1" using False assms(2) by (simp add: mod_pos_pos_trivial)
  finally show ?thesis using False by (simp add: colM1_def)
qed







section \<open>Vacancies and the order of the contributions\<close>





lemma Multiply_thread_Inr:
  assumes "Multiply_thread B MULT t = Inr t'"
  shows "\<exists>ops. Multiply_ops B MULT (lattice t) (hamiltonian t) = Inr ops
           \<and> t' = t\<lparr>kpm := run_ops MULT ops (inc_index (kpm t))\<rparr>"
  using assms
  by (auto simp: Multiply_thread_def Multiply_local_def bind_f_def split: sum.splits)

lemma Multiply_Inr:
  assumes "Multiply B MULT W = Inr W'" and "k < length (threads W)"
  shows "\<exists>ts ops. W' = Exchange_Boundaries (W\<lparr>threads := ts\<rparr>) \<and> length ts = length (threads W)
           \<and> Multiply_ops B MULT (lattice (threads W ! k)) (hamiltonian (threads W ! k)) = Inr ops
           \<and> ts ! k = (threads W ! k)\<lparr>kpm := run_ops MULT ops (inc_index (kpm (threads W ! k)))\<rparr>"
proof -
  from assms(1) obtain ts where ts: "each_thread (Multiply_thread B MULT) (threads W) = Inr ts"
      and W': "W' = Exchange_Boundaries (W\<lparr>threads := ts\<rparr>)"
    by (auto simp: Multiply_def bind_f_def split: sum.splits)
  from each_thread_Inr[OF ts] assms(2) have len: "length ts = length (threads W)"
      and step: "Multiply_thread B MULT (threads W ! k) = Inr (ts ! k)" by simp_all
  from Multiply_thread_Inr[OF step] W' len show ?thesis by blast
qed

lemma Multiply_bulk_value:
  assumes run: "Multiply B MULT W = Inr W'" and k: "k < length (threads W)"
    and ok: "lattice_ok (lattice (threads W ! k))" and bk: "bulk (lattice (threads W ! k)) i"
  shows "\<exists>ops. Multiply_ops B MULT (lattice (threads W ! k)) (hamiltonian (threads W ! k)) = Inr ops
      \<and> phi_of (threads W' ! k) i
          = v_data (run_ops MULT ops (inc_index (kpm (threads W ! k)))) i
              (index (inc_index (kpm (threads W ! k))))"
proof -
  let ?t = "threads W ! k"
  from Multiply_Inr[OF run k] obtain ts ops where
    W': "W' = Exchange_Boundaries (W\<lparr>threads := ts\<rparr>)" and len: "length ts = length (threads W)"
    and ops: "Multiply_ops B MULT (lattice ?t) (hamiltonian ?t) = Inr ops"
    and tk: "ts ! k = ?t\<lparr>kpm := run_ops MULT ops (inc_index (kpm ?t))\<rparr>"
    by blast
  let ?W1 = "W\<lparr>threads := ts\<rparr>"
  have k1: "k < length (threads ?W1)" using k len by simp
  have l1: "lattice (ts ! k) = lattice ?t" by (simp add: tk)
  have idx: "index (kpm (threads W' ! k)) = index (inc_index (kpm ?t))"
    using Exchange_Boundaries_frame(1)[OF k1] by (simp add: W' tk run_ops_frame)
  have "v_data (kpm (threads W' ! k)) i c = v_data (kpm (threads ?W1 ! k)) i c" for c
    unfolding W' using k1 by (rule Exchange_Boundaries_bulk) (simp_all add: l1 ok bk)
  then have "phi_of (threads W' ! k) i
      = v_data (run_ops MULT ops (inc_index (kpm ?t))) i (index (inc_index (kpm ?t)))"
    by (simp add: phi_of_def idx tk)
  with ops show ?thesis by blast
qed









section \<open>The new slot, site by site\<close>

subsection \<open>Site by site\<close>

lemma site_run_Nil: "site_run MULT al p1 p2 i [] x = x"
  by (simp add: site_run_def)

lemma site_run_Cons:
  "site_run MULT al p1 p2 i (op # ops) x = site_run MULT al p1 p2 i ops (site_step MULT al p1 p2 i x op)"
  by (simp add: site_run_def)

lemma site_run_append:
  "site_run MULT al p1 p2 i (xs @ ys) x = site_run MULT al p1 p2 i ys (site_run MULT al p1 p2 i xs x)"
  by (simp add: site_run_def)

lemma site_step_other: "target op \<noteq> i \<Longrightarrow> site_step MULT al p1 p2 i x op = x"
  by (cases op) simp_all

lemma site_run_other:
  "(\<And>op. op \<in> set ops \<Longrightarrow> target op \<noteq> i) \<Longrightarrow> site_run MULT al p1 p2 i ops x = x"
  by (induction ops arbitrary: x) (simp_all add: site_run_Nil site_run_Cons site_step_other)

lemma exec_op_site:
  assumes "c1 \<noteq> c0"
  shows "exec_op MULT c0 c1 c2 w op i c0
       = site_step MULT (c2 = c0) (\<lambda>j. w j c1) (\<lambda>j. w j c2) i (w i c0) op"
  using assms by (cases op) auto

lemma site_run_alias_psi2:
  "site_run MULT True p1 q i ops x = site_run MULT True p1 q' i ops x"
proof (induction ops arbitrary: x)
  case Nil
  show ?case by (simp add: site_run_Nil)
next
  case (Cons a ops)
  have "site_step MULT True p1 q i x a = site_step MULT True p1 q' i x a" by (cases a) simp_all
  with Cons show ?case by (simp add: site_run_Cons)
qed

lemma exec_ops_site:
  assumes "c1 \<noteq> c0"
  shows "exec_ops MULT c0 c1 c2 ops w i c0
       = site_run MULT (c2 = c0) (\<lambda>j. w j c1) (\<lambda>j. w j c2) i ops (w i c0)"
proof (induction ops arbitrary: w)
  case Nil
  show ?case by (simp add: exec_ops_Nil site_run_Nil)
next
  case (Cons op ops)
  let ?w = "exec_op MULT c0 c1 c2 w op"
  have p1: "(\<lambda>j. ?w j c1) = (\<lambda>j. w j c1)"
    using assms by (simp add: exec_op_other_column)
  have p2: "c2 \<noteq> c0 \<Longrightarrow> (\<lambda>j. ?w j c2) = (\<lambda>j. w j c2)"
    by (simp add: exec_op_other_column)
  have "exec_ops MULT c0 c1 c2 (op # ops) w i c0
      = site_run MULT (c2 = c0) (\<lambda>j. ?w j c1) (\<lambda>j. ?w j c2) i ops (?w i c0)"
    by (simp add: exec_ops_Cons Cons.IH)
  also have "\<dots> = site_run MULT (c2 = c0) (\<lambda>j. w j c1) (\<lambda>j. w j c2) i ops (?w i c0)"
  proof (cases "c2 = c0")
    case True
    have "site_run MULT (c2 = c0) (\<lambda>j. ?w j c1) (\<lambda>j. ?w j c2) i ops (?w i c0)
        = site_run MULT True (\<lambda>j. w j c1) (\<lambda>j. ?w j c2) i ops (?w i c0)"
      using True assms by (simp add: exec_op_other_column)
    also have "\<dots> = site_run MULT True (\<lambda>j. w j c1) (\<lambda>j. w j c2) i ops (?w i c0)"
      by (rule site_run_alias_psi2)
    finally show ?thesis using True by simp
  next
    case False
    then show ?thesis by (simp add: p1 p2)
  qed
  also have "\<dots> = site_run MULT (c2 = c0) (\<lambda>j. w j c1) (\<lambda>j. w j c2) i (op # ops) (w i c0)"
    by (simp add: site_run_Cons exec_op_site[OF assms])
  finally show ?case .
qed

lemma site_run_concat_none:
  assumes "\<And>k op. k \<in> set ks \<Longrightarrow> op \<in> set (F k) \<Longrightarrow> target op \<noteq> i"
  shows "site_run MULT al p1 p2 i (concat (map F ks)) x = x"
  by (rule site_run_other) (use assms in auto)

lemma site_run_concat_one:
  assumes "distinct ks" "k0 \<in> set ks"
    and "\<And>k op. k \<in> set ks \<Longrightarrow> k \<noteq> k0 \<Longrightarrow> op \<in> set (F k) \<Longrightarrow> target op \<noteq> i"
  shows "site_run MULT al p1 p2 i (concat (map F ks)) x = site_run MULT al p1 p2 i (F k0) x"
proof -
  from split_list[OF assms(2)] obtain pre post where ks: "ks = pre @ k0 # post" by blast
  with assms(1) have notin: "k0 \<notin> set pre" "k0 \<notin> set post" by auto
  have pre: "site_run MULT al p1 p2 i (concat (map F pre)) x = x"
    by (rule site_run_concat_none) (use assms(3) ks notin in auto)
  have post: "site_run MULT al p1 p2 i (concat (map F post)) y = y" for y
    by (rule site_run_concat_none) (use assms(3) ks notin in auto)
  show ?thesis by (simp add: ks site_run_append pre post)
qed

lemma site_run_concat_each:
  assumes "\<And>k y. k \<in> set ks \<Longrightarrow> site_run MULT al p1 p2 i (F k) y = site_run MULT al p1 p2 i (G k) y"
  shows "site_run MULT al p1 p2 i (concat (map F ks)) x = site_run MULT al p1 p2 i (concat (map G ks)) x"
  using assms by (induction ks arbitrary: x) (simp_all add: site_run_append)

subsection \<open>Loops that do not throw\<close>

lemma collect_Inr:
  "(\<And>k. k \<in> set ks \<Longrightarrow> body k = Inr (F k)) \<Longrightarrow> collect body ks = Inr (concat (map F ks))"
  by (induction ks) (simp_all add: bind_f_def)

lemma then_ops_Inr_Inr: "then_ops (Inr xs) (Inr ys) = Inr (xs @ ys)"
  by (simp add: then_ops_def bind_f_def)

lemma strided_steps:
  "0 < step \<Longrightarrow> strided i (i + n * step) step = Inr (map (\<lambda>k. i + k * step) [0..<n])"
proof (induction n arbitrary: i)
  case 0
  show ?case by (simp add: strided.simps[of i])
next
  case (Suc n)
  have "strided (i + step) (i + step + n * step) step = Inr (map (\<lambda>k. i + step + k * step) [0..<n])"
    using Suc.prems by (rule Suc.IH)
  then have IH: "strided (i + step) (i + Suc n * step) step = Inr (map (\<lambda>k. i + step + k * step) [0..<n])"
    by (simp add: add.assoc)
  have lt: "i < i + Suc n * step" using Suc.prems by simp
  have "strided i (i + Suc n * step) step
      = bind_f (strided (i + step) (i + Suc n * step) step) (\<lambda>rest. Inr (i # rest))"
    using lt Suc.prems by (subst strided.simps) simp
  also have "\<dots> = Inr (i # map (\<lambda>k. i + step + k * step) [0..<n])"
    unfolding IH by (simp add: bind_f_def)
  finally have "strided i (i + Suc n * step) step
      = Inr (i # map (\<lambda>k. i + step + k * step) [0..<n])" .
  also have "i # map (\<lambda>k. i + step + k * step) [0..<n] = map (\<lambda>k. i + k * step) [0..<Suc n]"
    by (simp add: upt_rec[of 0 "Suc n"] map_Suc_upt[symmetric] add.assoc del: upt_Suc)
  finally show ?case .
qed


subsection \<open>Tiles\<close>

lemma coordinates_bounded:
  "0 < Ld r 0 \<Longrightarrow> x_of r i < Ld r 0" "0 < Ld r 1 \<Longrightarrow> y_of r i < Ld r 1"
  by (simp_all add: x_of_def y_of_def)

lemma encode_decode: "set_index r (x_of r i) (y_of r i) (orb_of r i) = i"
proof -
  have "i div (Ld r 0 * Ld r 1) = (i div Ld r 0) div Ld r 1" by (simp add: div_mult2_eq)
  then have "y_of r i + Ld r 1 * orb_of r i = i div Ld r 0"
    unfolding y_of_def orb_of_def by simp
  then show ?thesis unfolding set_index_eq x_of_def by simp
qed

lemma set_index_inj:
  assumes "x < Ld r 0" "y < Ld r 1" "x' < Ld r 0" "y' < Ld r 1"
    and "set_index r x y io = set_index r x' y' io'"
  shows "x = x' \<and> y = y' \<and> io = io'"
  using decode_site[OF assms(1,2), of io] decode_site[OF assms(3,4), of io'] assms(5) by simp

lemma lattice_ok_pos: "lattice_ok r \<Longrightarrow> 0 < Ld r 0 \<and> 0 < Ld r 1"
  by (auto simp: lattice_ok_def NGHOSTS_def)

lemma tile_cell:
  "set_index r i0 i1 io + k * Ld r 0 + l = set_index r (i0 + l) (i1 + k) io"
  by (simp add: set_index_eq algebra_simps)

lemma tile_block_targets:
  assumes F: "\<And>j l op. op \<in> set (F j l) \<Longrightarrow> target op = l"
    and fit: "i0 + STRIDE B \<le> Ld r 0" "i1 + STRIDE B \<le> Ld r 1"
    and op: "op \<in> set (tile_block B r i0 i1 io F)"
  shows "in_tile B r i0 i1 io (target op)"
proof -
  let ?j0 = "set_index r i0 i1 io"
  from op obtain k l where k: "k < STRIDE B" and l: "?j0 + k * Ld r 0 \<le> l" "l < ?j0 + k * Ld r 0 + STRIDE B"
      and "op \<in> set (F (?j0 + k * Ld r 0) l)"
    by (auto simp: tile_block_def)
  then have t: "target op = l" using F by blast
  define l' where "l' = l - (?j0 + k * Ld r 0)"
  have l': "l' < STRIDE B" "l = ?j0 + k * Ld r 0 + l'" using l by (simp_all add: l'_def)
  have "l = set_index r (i0 + l') (i1 + k) io" by (simp add: l'(2) tile_cell)
  moreover have "i0 + l' < Ld r 0" "i1 + k < Ld r 1" using l'(1) k fit by simp_all
  ultimately have "x_of r l = i0 + l'" "y_of r l = i1 + k" "orb_of r l = io"
    by (simp_all add: decode_site)
  then show ?thesis using l'(1) k by (simp add: in_tile_def t)
qed

lemma tile_block_site:
  assumes F: "\<And>j l op. op \<in> set (F j l) \<Longrightarrow> target op = l"
    and fit: "i0 + STRIDE B \<le> Ld r 0" "i1 + STRIDE B \<le> Ld r 1"
    and it: "in_tile B r i0 i1 io i"
  shows "site_run MULT al p1 p2 i (tile_block B r i0 i1 io F) x
       = site_run MULT al p1 p2 i (F (set_index r i0 (y_of r i) io) i) x"
proof -
  let ?j0 = "set_index r i0 i1 io"
  let ?row = "\<lambda>k. concat (map (F (?j0 + k * Ld r 0)) [?j0 + k * Ld r 0 ..< ?j0 + k * Ld r 0 + STRIDE B])"
  from it have c: "orb_of r i = io" "i0 \<le> x_of r i" "x_of r i < i0 + STRIDE B"
      "i1 \<le> y_of r i" "y_of r i < i1 + STRIDE B"
    by (simp_all add: in_tile_def)
  define k0 where "k0 = y_of r i - i1"
  define l0 where "l0 = x_of r i - i0"
  have k0: "k0 < STRIDE B" "y_of r i = i1 + k0" using c by (simp_all add: k0_def)
  have l0: "l0 < STRIDE B" "x_of r i = i0 + l0" using c by (simp_all add: l0_def)
  have i: "i = ?j0 + k0 * Ld r 0 + l0"
    using encode_decode[of r i] by (simp add: tile_cell c(1) k0(2) l0(2))
  have start: "?j0 + k0 * Ld r 0 = set_index r i0 (y_of r i) io"
    using tile_cell[of r i0 i1 io k0 0] by (simp add: k0(2))
  have other_row: "target op \<noteq> i" if "k \<in> set [0..<STRIDE B]" "k \<noteq> k0" "op \<in> set (?row k)" for k op
  proof -
    from that obtain l where l: "?j0 + k * Ld r 0 \<le> l" "l < ?j0 + k * Ld r 0 + STRIDE B"
        and "op \<in> set (F (?j0 + k * Ld r 0) l)" by auto
    then have t: "target op = l" using F by blast
    define l' where "l' = l - (?j0 + k * Ld r 0)"
    have l': "l' < STRIDE B" "l = ?j0 + k * Ld r 0 + l'" using l by (simp_all add: l'_def)
    have "l = set_index r (i0 + l') (i1 + k) io" by (simp add: l'(2) tile_cell)
    moreover have "i0 + l' < Ld r 0" "i1 + k < Ld r 1" using l'(1) that(1) fit by simp_all
    ultimately have "y_of r l = i1 + k" by (simp add: decode_site)
    with k0(2) that(2) show ?thesis by (auto simp: t)
  qed
  have "site_run MULT al p1 p2 i (tile_block B r i0 i1 io F) x = site_run MULT al p1 p2 i (?row k0) x"
    unfolding tile_block_def
    by (rule site_run_concat_one) (use k0(1) other_row in auto)
  also have "\<dots> = site_run MULT al p1 p2 i (F (?j0 + k0 * Ld r 0) i) x"
  proof (rule site_run_concat_one)
    show "distinct [?j0 + k0 * Ld r 0 ..< ?j0 + k0 * Ld r 0 + STRIDE B]" by simp
    show "i \<in> set [?j0 + k0 * Ld r 0 ..< ?j0 + k0 * Ld r 0 + STRIDE B]" using i l0(1) by simp
    fix l op assume "l \<noteq> i" "op \<in> set (F (?j0 + k0 * Ld r 0) l)"
    then show "target op \<noteq> i" using F by blast
  qed
  finally show ?thesis by (simp add: start)
qed

lemma tile_block_outside:
  assumes F: "\<And>j l op. op \<in> set (F j l) \<Longrightarrow> target op = l"
    and fit: "i0 + STRIDE B \<le> Ld r 0" "i1 + STRIDE B \<le> Ld r 1"
    and it: "\<not> in_tile B r i0 i1 io i"
  shows "site_run MULT al p1 p2 i (tile_block B r i0 i1 io F) x = x"
proof (rule site_run_other)
  fix op assume "op \<in> set (tile_block B r i0 i1 io F)"
  from tile_block_targets[OF F fit this] it show "target op \<noteq> i" by auto
qed

lemma tile_loop_pure:
  assumes pos: "0 < Ld r 0"
    and body: "\<And>k l. k < STRIDE B \<Longrightarrow> set_index r i0 i1 io + k * Ld r 0 \<le> l
        \<Longrightarrow> l < set_index r i0 i1 io + k * Ld r 0 + STRIDE B
        \<Longrightarrow> body (set_index r i0 i1 io + k * Ld r 0) l = Inr (F (set_index r i0 i1 io + k * Ld r 0) l)"
  shows "tile_loop B r i0 i1 io body = Inr (tile_block B r i0 i1 io F)"
proof -
  let ?j0 = "set_index r i0 i1 io"
  have j0: "io * basis r 2 + i0 + i1 * basis r 1 = ?j0"
    by (simp add: set_index_def basis_def)
  have rows: "strided ?j0 (?j0 + STRIDE B * Ld r 0) (Ld r 0)
      = Inr (map (\<lambda>k. ?j0 + k * Ld r 0) [0..<STRIDE B])"
    using strided_steps[OF pos, of ?j0 "STRIDE B"] by simp
  have "collect (\<lambda>j. collect (body j) [j..<j + STRIDE B]) (map (\<lambda>k. ?j0 + k * Ld r 0) [0..<STRIDE B])
      = Inr (concat (map (\<lambda>j. concat (map (F j) [j..<j + STRIDE B]))
              (map (\<lambda>k. ?j0 + k * Ld r 0) [0..<STRIDE B])))"
  proof (rule collect_Inr)
    fix j assume "j \<in> set (map (\<lambda>k. ?j0 + k * Ld r 0) [0..<STRIDE B])"
    then obtain k where k: "k < STRIDE B" "j = ?j0 + k * Ld r 0" by auto
    show "collect (body j) [j..<j + STRIDE B] = Inr (concat (map (F j) [j..<j + STRIDE B]))"
      by (rule collect_Inr) (use k body in auto)
  qed
  then show ?thesis
    unfolding tile_loop_def Let_def j0 by (simp add: basis_def rows bind_f_def tile_block_def comp_def)
qed


subsection \<open>The sweep over a Hamiltonian without structural disorder\<close>

lemma site_run_Zeros:
  "site_run MULT al p1 p2 i (map Zero zs) x = (if i \<in> set zs then 0 else x)"
proof (induction zs rule: rev_induct)
  case Nil
  show ?case by (simp add: site_run_Nil)
next
  case (snoc z zs)
  show ?case by (simp add: site_run_append snoc site_run_Cons site_run_Nil)
qed




subsection \<open>Tiles of the bulk\<close>

lemma tiled_extent:
  assumes "tiled B r"
  shows "Ld r 0 - NGHOSTS = NGHOSTS + lStr r 0 * STRIDE B"
    and "Ld r 1 - NGHOSTS = NGHOSTS + lStr r 1 * STRIDE B"
    and "0 < Ld r 0" and "0 < Ld r 1" and "0 < STRIDE B"
  using assms by (auto simp: tiled_def lattice_ok_def NGHOSTS_def)

lemma tiles_of_axis:
  assumes "tiled B r"
  shows "strided NGHOSTS (Ld r 0 - NGHOSTS) (STRIDE B) = Inr (map (\<lambda>k. NGHOSTS + k * STRIDE B) [0..<lStr r 0])"
    and "strided NGHOSTS (Ld r 1 - NGHOSTS) (STRIDE B) = Inr (map (\<lambda>k. NGHOSTS + k * STRIDE B) [0..<lStr r 1])"
  using strided_steps[OF tiled_extent(5)[OF assms], of NGHOSTS] tiled_extent(1,2)[OF assms]
  by simp_all

lemma tile_fits:
  assumes t: "tiled B r" and k: "k0 < lStr r 0" "k1 < lStr r 1"
  shows "NGHOSTS + k0 * STRIDE B + STRIDE B \<le> Ld r 0 - NGHOSTS"
    and "NGHOSTS + k1 * STRIDE B + STRIDE B \<le> Ld r 1 - NGHOSTS"
proof -
  have "Suc k0 * STRIDE B \<le> lStr r 0 * STRIDE B" using k(1) by (intro mult_le_mono1) simp
  then show "NGHOSTS + k0 * STRIDE B + STRIDE B \<le> Ld r 0 - NGHOSTS"
    using tiled_extent(1)[OF t] by simp
  have "Suc k1 * STRIDE B \<le> lStr r 1 * STRIDE B" using k(2) by (intro mult_le_mono1) simp
  then show "NGHOSTS + k1 * STRIDE B + STRIDE B \<le> Ld r 1 - NGHOSTS"
    using tiled_extent(2)[OF t] by simp
qed

lemma tile_number_of_corner:
  assumes "0 < STRIDE B" "k0 < lStr r 0"
  shows "(NGHOSTS + k1 * STRIDE B - NGHOSTS) div STRIDE B * lStr r 0
       + (NGHOSTS + k0 * STRIDE B - NGHOSTS) div STRIDE B = k1 * lStr r 0 + k0"
    and "k1 < lStr r 1 \<Longrightarrow> k1 * lStr r 0 + k0 < lStr r 0 * lStr r 1"
proof -
  show "(NGHOSTS + k1 * STRIDE B - NGHOSTS) div STRIDE B * lStr r 0
       + (NGHOSTS + k0 * STRIDE B - NGHOSTS) div STRIDE B = k1 * lStr r 0 + k0"
    using assms(1) by simp
  assume "k1 < lStr r 1"
  then have "Suc k1 * lStr r 0 \<le> lStr r 1 * lStr r 0" by (intro mult_le_mono1) simp
  then show "k1 * lStr r 0 + k0 < lStr r 0 * lStr r 1" using assms(2) by (simp add: mult.commute)
qed

lemma in_tile_bulk:
  assumes t: "tiled B r" and k: "k0 < lStr r 0" "k1 < lStr r 1" and io: "io < Orb r"
    and it: "in_tile B r (NGHOSTS + k0 * STRIDE B) (NGHOSTS + k1 * STRIDE B) io i"
  shows "bulk r i" and "(x_of r i - NGHOSTS) div STRIDE B = k0"
    and "(y_of r i - NGHOSTS) div STRIDE B = k1" and "orb_of r i = io"
proof -
  from it have c: "orb_of r i = io" "NGHOSTS + k0 * STRIDE B \<le> x_of r i"
      "x_of r i < NGHOSTS + k0 * STRIDE B + STRIDE B"
      "NGHOSTS + k1 * STRIDE B \<le> y_of r i" "y_of r i < NGHOSTS + k1 * STRIDE B + STRIDE B"
    by (simp_all add: in_tile_def)
  show "bulk r i" using c tile_fits[OF t k] io by (simp add: bulk_def)
  show "orb_of r i = io" by (rule c(1))
  define a where "a = x_of r i - NGHOSTS - k0 * STRIDE B"
  have a: "x_of r i - NGHOSTS = a + k0 * STRIDE B" "a < STRIDE B" using c(2,3) by (simp_all add: a_def)
  show "(x_of r i - NGHOSTS) div STRIDE B = k0" unfolding a(1) using a(2) by simp
  define b where "b = y_of r i - NGHOSTS - k1 * STRIDE B"
  have b: "y_of r i - NGHOSTS = b + k1 * STRIDE B" "b < STRIDE B" using c(4,5) by (simp_all add: b_def)
  show "(y_of r i - NGHOSTS) div STRIDE B = k1" unfolding b(1) using b(2) by simp
qed

lemma bulk_in_tile:
  assumes t: "tiled B r" and bk: "bulk r i"
  shows "(x_of r i - NGHOSTS) div STRIDE B < lStr r 0"
    and "(y_of r i - NGHOSTS) div STRIDE B < lStr r 1"
    and "in_tile B r (tile_origin B (x_of r i)) (tile_origin B (y_of r i)) (orb_of r i) i"
proof -
  note S = tiled_extent(5)[OF t]
  from bk have c: "NGHOSTS \<le> x_of r i" "x_of r i < Ld r 0 - NGHOSTS"
      "NGHOSTS \<le> y_of r i" "y_of r i < Ld r 1 - NGHOSTS" by (simp_all add: bulk_def)
  have "x_of r i - NGHOSTS < lStr r 0 * STRIDE B" using c(1,2) tiled_extent(1)[OF t] by simp
  then show "(x_of r i - NGHOSTS) div STRIDE B < lStr r 0"
    using S by (simp add: div_less_iff_less_mult)
  have "y_of r i - NGHOSTS < lStr r 1 * STRIDE B" using c(3,4) tiled_extent(2)[OF t] by simp
  then show "(y_of r i - NGHOSTS) div STRIDE B < lStr r 1"
    using S by (simp add: div_less_iff_less_mult)
  have lo: "n div STRIDE B * STRIDE B \<le> n" for n by simp
  have hi: "n < n div STRIDE B * STRIDE B + STRIDE B" for n
    using S by (metis add.commute div_mult_mod_eq mod_less_divisor mult.commute nat_add_left_cancel_less)
  have lo2: "NGHOSTS + (n - NGHOSTS) div STRIDE B * STRIDE B \<le> n" if "NGHOSTS \<le> n" for n
    using lo[of "n - NGHOSTS"] that by linarith
  have hi2: "n < NGHOSTS + (n - NGHOSTS) div STRIDE B * STRIDE B + STRIDE B" if "NGHOSTS \<le> n" for n
    using hi[of "n - NGHOSTS"] that by linarith
  show "in_tile B r (tile_origin B (x_of r i)) (tile_origin B (y_of r i)) (orb_of r i) i"
    unfolding in_tile_def tile_origin_def
    using lo2[OF c(1)] hi2[OF c(1)] lo2[OF c(3)] hi2[OF c(3)] by blast
qed


subsection \<open>One orbital of one tile\<close>

lemma tile_cell_in_tile:
  assumes fit: "i0 + STRIDE B \<le> Ld r 0" "i1 + STRIDE B \<le> Ld r 1"
    and k: "k < STRIDE B"
    and l: "set_index r i0 i1 io + k * Ld r 0 \<le> l" "l < set_index r i0 i1 io + k * Ld r 0 + STRIDE B"
  shows "in_tile B r i0 i1 io l"
proof -
  define l' where "l' = l - (set_index r i0 i1 io + k * Ld r 0)"
  have l': "l' < STRIDE B" "l = set_index r i0 i1 io + k * Ld r 0 + l'" using l by (simp_all add: l'_def)
  have "l = set_index r (i0 + l') (i1 + k) io" by (simp add: l'(2) tile_cell)
  moreover have "i0 + l' < Ld r 0" "i1 + k < Ld r 1" using l'(1) k fit by simp_all
  ultimately have "x_of r l = i0 + l'" "y_of r l = i1 + k" "orb_of r l = io"
    by (simp_all add: decode_site)
  then show ?thesis using l'(1) k by (simp add: in_tile_def)
qed

lemma bulk_in_vector:
  assumes "tiled B r" "bulk r i"
  shows "i < Nd r * Orb r"
proof -
  have pos: "0 < Ld r 0 * Ld r 1" using tiled_extent(3,4)[OF assms(1)] by simp
  have "i div (Ld r 0 * Ld r 1) < Orb r" using assms(2) by (simp add: bulk_def orb_of_def)
  then have "i < Orb r * (Ld r 0 * Ld r 1)" using pos by (simp add: div_less_iff_less_mult)
  then show ?thesis using assms(1) by (simp add: tiled_def mult.commute)
qed

lemma orbital_ops_pure:
  assumes reg: "regular B r h" and k: "k0 < lStr r 0" "k1 < lStr r 1" and io: "io < Orb r"
    and i0: "i0 = NGHOSTS + k0 * STRIDE B" and i1: "i1 = NGHOSTS + k1 * STRIDE B"
    and istr: "istr = k1 * lStr r 0 + k0"
  shows "orbital_ops B MULT r h istr i0 i1 io = Inr (orbital_block B MULT r h i0 i1 io)"
proof -
  from reg have t: "tiled B r" by (simp add: regular_def)
  note pos = tiled_extent(3)[OF t]
  have fit: "i0 + STRIDE B \<le> Ld r 0" "i1 + STRIDE B \<le> Ld r 1"
    using tile_fits[OF t k] by (simp_all add: i0 i1)
  have range: "istr < lStr r 0 * lStr r 1"
    unfolding istr using tile_number_of_corner(2)[OF tiled_extent(5)[OF t] k(1) k(2)] .
  with reg have cm: "istr < length (cross_mozaic h)" "cross_mozaic h ! istr"
    by (simp_all add: regular_def)
  have init: "init_ops B r h istr i0 i1 io = Inr (tile_block B r i0 i1 io (\<lambda>j i. [Init i]))"
    using cm by (simp add: init_ops_def vector_at_def bind_f_def tile_loop_pure[OF pos])
  have cells: "bulk r l \<and> orb_of r l = io"
    if "k < STRIDE B" "set_index r i0 i1 io + k * Ld r 0 \<le> l"
       "l < set_index r i0 i1 io + k * Ld r 0 + STRIDE B" for k l
  proof -
    have "in_tile B r (NGHOSTS + k0 * STRIDE B) (NGHOSTS + k1 * STRIDE B) io l"
      using tile_cell_in_tile[OF fit that] by (simp add: i0 i1)
    from in_tile_bulk(1,4)[OF t k io this] show ?thesis by simp
  qed
  have known: "U_known r h l" if "bulk r l" for l
    using reg that bulk_in_vector[OF t that] by (simp add: regular_def)
  have anderson: "anderson_ops B MULT r h i0 i1 io
      = Inr (if 0 \<le> Anderson_orb_address h io \<or> Anderson_orb_address h io = - 1
             then tile_block B r i0 i1 io (\<lambda>j i. [Add i (of_nat (MULT + 1)) i (U_site r h i)]) else [])"
  proof (cases "0 \<le> Anderson_orb_address h io")
    case True
    have "tile_loop B r i0 i1 io (\<lambda>j i.
          bind_f (vector_at_int (U_Anderson h) (int i - (Anderson_orb_address h io - int io) * int (Nd r)))
            (\<lambda>u. Inr [Add i (of_nat (MULT + 1)) i u]))
        = Inr (tile_block B r i0 i1 io (\<lambda>j i. [Add i (of_nat (MULT + 1)) i (U_site r h i)]))"
    proof (rule tile_loop_pure[OF pos])
      fix k l assume kl: "k < STRIDE B" "set_index r i0 i1 io + k * Ld r 0 \<le> l"
        "l < set_index r i0 i1 io + k * Ld r 0 + STRIDE B"
      from cells[OF kl] known[of l] True
      show "bind_f (vector_at_int (U_Anderson h) (int l - (Anderson_orb_address h io - int io) * int (Nd r)))
            (\<lambda>u. Inr [Add l (of_nat (MULT + 1)) l u])
          = Inr [Add l (of_nat (MULT + 1)) l (U_site r h l)]"
        by (simp add: U_known_def U_site_def vector_at_int_def bind_f_def Let_def)
    qed
    with True show ?thesis by (simp add: anderson_ops_def Let_def)
  next
    case False
    show ?thesis
    proof (cases "Anderson_orb_address h io = - 1")
      case True
      have "tile_loop B r i0 i1 io (\<lambda>j i.
            bind_f (vector_at (U_Orbital h) io) (\<lambda>u. Inr [Add i (of_nat (MULT + 1)) i u]))
          = Inr (tile_block B r i0 i1 io (\<lambda>j i. [Add i (of_nat (MULT + 1)) i (U_site r h i)]))"
      proof (rule tile_loop_pure[OF pos])
        fix k l assume kl: "k < STRIDE B" "set_index r i0 i1 io + k * Ld r 0 \<le> l"
          "l < set_index r i0 i1 io + k * Ld r 0 + STRIDE B"
        from cells[OF kl] known[of l] True
        show "bind_f (vector_at (U_Orbital h) io) (\<lambda>u. Inr [Add l (of_nat (MULT + 1)) l u])
            = Inr [Add l (of_nat (MULT + 1)) l (U_site r h l)]"
          by (simp add: U_known_def U_site_def vector_at_def bind_f_def Let_def)
      qed
      with True show ?thesis by (simp add: anderson_ops_def Let_def)
    next
      case no: False
      with False show ?thesis by (simp add: anderson_ops_def Let_def)
    qed
  qed
  have hops: "hopping_ops B MULT r h i0 i1 io
      = Inr (concat (map (\<lambda>ib.
          tile_block B r i0 i1 io (\<lambda>j i.
            [Add i (of_nat (MULT + 1) * hopping (hr h) ib io) (nat (int i + distance (hr h) ib io))
               (peierls2 B (of_int (int (dist_hr (hr h) ib io mod 3) - 1)
                  * of_int (convertCoordinates r j 1) * vect_pot r 0 1))]))
         [0..<NHoppings (hr h) io]))"
    unfolding hopping_ops_def Let_def
    by (rule collect_Inr) (rule tile_loop_pure[OF pos], rule refl)
  show ?thesis
    unfolding orbital_ops_def init anderson hops then_ops_Inr_Inr orbital_block_def ..
qed

lemma orbital_block_targets:
  assumes fit: "i0 + STRIDE B \<le> Ld r 0" "i1 + STRIDE B \<le> Ld r 1"
    and op: "op \<in> set (orbital_block B MULT r h i0 i1 io)"
  shows "in_tile B r i0 i1 io (target op)"
proof -
  have tb: "in_tile B r i0 i1 io (target op)"
    if "op \<in> set (tile_block B r i0 i1 io F)" "\<And>j l op. op \<in> set (F j l) \<Longrightarrow> target op = l" for F
    using tile_block_targets[OF that(2) fit that(1)] .
  from op consider
      "op \<in> set (tile_block B r i0 i1 io (\<lambda>j i. [Init i]))"
    | "op \<in> set (tile_block B r i0 i1 io (\<lambda>j i. [Add i (of_nat (MULT + 1)) i (U_site r h i)]))"
    | ib where "op \<in> set (tile_block B r i0 i1 io (\<lambda>j i.
            [Add i (of_nat (MULT + 1) * hopping (hr h) ib io) (nat (int i + distance (hr h) ib io))
               (peierls2 B (of_int (int (dist_hr (hr h) ib io mod 3) - 1)
                  * of_int (convertCoordinates r j 1) * vect_pot r 0 1))]))"
    by (auto simp: orbital_block_def split: if_splits)
  then show ?thesis
  proof cases
    case 1 then show ?thesis by (rule tb) simp
  next
    case 2 then show ?thesis by (rule tb) simp
  next
    case 3 then show ?thesis by (rule tb) simp
  qed
qed

lemma orbital_block_site:
  assumes fit: "i0 + STRIDE B \<le> Ld r 0" "i1 + STRIDE B \<le> Ld r 1"
    and it: "in_tile B r i0 i1 io i" and i0: "i0 = tile_origin B (x_of r i)"
  shows "site_run MULT al p1 p2 i (orbital_block B MULT r h i0 i1 io) x
       = site_run MULT al p1 p2 i (site_ops B MULT r h i) x"
proof -
  from it have io: "orb_of r i = io" by (simp add: in_tile_def)
  have row: "set_index r i0 (y_of r i) io = row_start B r i" by (simp add: row_start_def i0 io)
  note tb = tile_block_site[OF _ fit it, of _ MULT al p1 p2]
  have init: "site_run MULT al p1 p2 i (tile_block B r i0 i1 io (\<lambda>j i. [Init i])) y
      = site_run MULT al p1 p2 i [Init i] y" for y
    by (rule tb) simp
  have anderson: "site_run MULT al p1 p2 i
        (tile_block B r i0 i1 io (\<lambda>j i. [Add i (of_nat (MULT + 1)) i (U_site r h i)])) y
      = site_run MULT al p1 p2 i [Add i (of_nat (MULT + 1)) i (U_site r h i)] y" for y
    by (rule tb) simp
  have hop: "site_run MULT al p1 p2 i (tile_block B r i0 i1 io (\<lambda>j i.
            [Add i (of_nat (MULT + 1) * hopping (hr h) ib io) (nat (int i + distance (hr h) ib io))
               (peierls2 B (of_int (int (dist_hr (hr h) ib io mod 3) - 1)
                  * of_int (convertCoordinates r j 1) * vect_pot r 0 1))])) y
      = site_run MULT al p1 p2 i
          [Add i (of_nat (MULT + 1) * hopping (hr h) ib io) (nat (int i + distance (hr h) ib io))
               (peierls2 B (hop_phase B r h i ib))] y" for ib y
    unfolding hop_phase_def io row[symmetric] by (rule tb) simp
  have hops: "site_run MULT al p1 p2 i (concat (map (\<lambda>ib. tile_block B r i0 i1 io (\<lambda>j i.
            [Add i (of_nat (MULT + 1) * hopping (hr h) ib io) (nat (int i + distance (hr h) ib io))
               (peierls2 B (of_int (int (dist_hr (hr h) ib io mod 3) - 1)
                  * of_int (convertCoordinates r j 1) * vect_pot r 0 1))])) [0..<NHoppings (hr h) io])) y
      = site_run MULT al p1 p2 i (concat (map (\<lambda>ib.
          [Add i (of_nat (MULT + 1) * hopping (hr h) ib io) (nat (int i + distance (hr h) ib io))
               (peierls2 B (hop_phase B r h i ib))]) [0..<NHoppings (hr h) io])) y" for y
    by (rule site_run_concat_each) (rule hop)
  have flat: "concat (map (\<lambda>ib. [f ib]) ibs) = map f ibs" for f :: "nat \<Rightarrow> op" and ibs
    by (induction ibs) simp_all
  have split: "site_run MULT al p1 p2 i (a # bs @ cs) y
      = site_run MULT al p1 p2 i cs (site_run MULT al p1 p2 i bs (site_run MULT al p1 p2 i [a] y))"
    for a bs cs y
    by (simp only: site_run_Cons site_run_append site_run_Nil)
  show ?thesis
  proof (cases "0 \<le> Anderson_orb_address h io \<or> Anderson_orb_address h io = - 1")
    case True
    then show ?thesis
      unfolding orbital_block_def site_ops_def io
      by (simp only: if_True site_run_append init anderson hops flat split)
  next
    case False
    then show ?thesis
      unfolding orbital_block_def site_ops_def io
      by (simp only: if_False site_run_append init anderson hops flat split site_run_Nil)
  qed
qed

lemma orbital_block_outside:
  assumes fit: "i0 + STRIDE B \<le> Ld r 0" "i1 + STRIDE B \<le> Ld r 1"
    and it: "\<not> in_tile B r i0 i1 io i"
  shows "site_run MULT al p1 p2 i (orbital_block B MULT r h i0 i1 io) x = x"
proof (rule site_run_other)
  fix op assume "op \<in> set (orbital_block B MULT r h i0 i1 io)"
  from orbital_block_targets[OF fit this] it show "target op \<noteq> i" by auto
qed


subsection \<open>One tile, and the sweep\<close>

lemma tile_ops_pure:
  assumes reg: "regular B r h" and k: "k0 < lStr r 0" "k1 < lStr r 1"
  shows "tile_ops B MULT r h (NGHOSTS + k0 * STRIDE B) (NGHOSTS + k1 * STRIDE B)
       = Inr (tile_schedule B MULT r h (NGHOSTS + k0 * STRIDE B) (NGHOSTS + k1 * STRIDE B))"
proof -
  from reg have t: "tiled B r" and nd: "hd_h h = []" by (simp_all add: regular_def)
  note S = tiled_extent(5)[OF t]
  let ?i0 = "NGHOSTS + k0 * STRIDE B" and ?i1 = "NGHOSTS + k1 * STRIDE B"
  have istr: "(?i1 - NGHOSTS) div STRIDE B * lStr r 0 + (?i0 - NGHOSTS) div STRIDE B = k1 * lStr r 0 + k0"
    by (rule tile_number_of_corner(1)[OF S k(1)])
  have "k1 * lStr r 0 + k0 < lStr r 0 * lStr r 1" by (rule tile_number_of_corner(2)[OF S k])
  with reg have len: "k1 * lStr r 0 + k0 < length (position_V (hV h))" by (simp add: regular_def)
  have orbs: "collect (orbital_ops B MULT r h (k1 * lStr r 0 + k0) ?i0 ?i1) [0..<Orb r]
      = Inr (concat (map (orbital_block B MULT r h ?i0 ?i1) [0..<Orb r]))"
    by (rule collect_Inr) (rule orbital_ops_pure[OF reg k _ refl refl refl], simp)
  have vac: "vacancy_ops h (k1 * lStr r 0 + k0) = Inr (map Zero (position_V (hV h) ! (k1 * lStr r 0 + k0)))"
    using len by (simp add: vacancy_ops_def vector_at_def bind_f_def)
  show ?thesis
    unfolding tile_ops_def Let_def istr orbs vac nd tile_schedule_def
    by (simp add: then_ops_def bind_f_def)
qed

lemma sweep_ops_pure:
  assumes reg: "regular B r h"
  shows "sweep_ops B MULT r h = Inr (sweep_schedule B MULT r h)"
proof -
  from reg have t: "tiled B r" by (simp add: regular_def)
  have row: "collect (\<lambda>i0. tile_ops B MULT r h i0 (NGHOSTS + k1 * STRIDE B))
        (map (\<lambda>k. NGHOSTS + k * STRIDE B) [0..<lStr r 0])
      = Inr (concat (map (\<lambda>i0. tile_schedule B MULT r h i0 (NGHOSTS + k1 * STRIDE B))
          (map (\<lambda>k. NGHOSTS + k * STRIDE B) [0..<lStr r 0])))" if "k1 < lStr r 1" for k1
    by (rule collect_Inr) (use tile_ops_pure[OF reg _ that] in auto)
  have "collect (\<lambda>i1. bind_f (strided NGHOSTS (Ld r 0 - NGHOSTS) (STRIDE B))
            (collect (\<lambda>i0. tile_ops B MULT r h i0 i1)))
        (map (\<lambda>k. NGHOSTS + k * STRIDE B) [0..<lStr r 1])
      = Inr (concat (map (\<lambda>i1. concat (map (\<lambda>i0. tile_schedule B MULT r h i0 i1)
            (map (\<lambda>k. NGHOSTS + k * STRIDE B) [0..<lStr r 0])))
          (map (\<lambda>k. NGHOSTS + k * STRIDE B) [0..<lStr r 1])))"
    by (rule collect_Inr) (use row in \<open>auto simp: tiles_of_axis(1)[OF t] bind_f_def\<close>)
  then have "sweep_ops B MULT r h
      = Inr (concat (map (\<lambda>i1. concat (map (\<lambda>i0. tile_schedule B MULT r h i0 i1)
            (map (\<lambda>k. NGHOSTS + k * STRIDE B) [0..<lStr r 0])))
          (map (\<lambda>k. NGHOSTS + k * STRIDE B) [0..<lStr r 1])))"
    unfolding sweep_ops_def tiles_of_axis(2)[OF t] by (simp only: bind_f_def sum.case)
  then show ?thesis
    unfolding sweep_schedule_def by (simp only: map_map comp_def)
qed

lemma Multiply_ops_pure:
  assumes reg: "regular B r h"
  shows "Multiply_ops B MULT r h
       = Inr (sweep_schedule B MULT r h @ map Zero (vacancies_with_defects (hV h)))"
proof -
  from reg have "cross_mozaic_indexes h = []" "hd_h h = []" by (simp_all add: regular_def)
  then show ?thesis
    by (simp add: Multiply_ops_def pre_init_ops_def border_ops_def sweep_ops_pure[OF reg]
        then_ops_def bind_f_def)
qed

lemma tile_schedule_targets:
  assumes reg: "regular B r h" and k: "k0 < lStr r 0" "k1 < lStr r 1"
    and op: "op \<in> set (tile_schedule B MULT r h (NGHOSTS + k0 * STRIDE B) (NGHOSTS + k1 * STRIDE B))"
  shows "bulk r (target op) \<and> (x_of r (target op) - NGHOSTS) div STRIDE B = k0
       \<and> (y_of r (target op) - NGHOSTS) div STRIDE B = k1"
proof -
  from reg have t: "tiled B r" by (simp add: regular_def)
  note S = tiled_extent(5)[OF t]
  let ?i0 = "NGHOSTS + k0 * STRIDE B" and ?i1 = "NGHOSTS + k1 * STRIDE B"
  have fit: "?i0 + STRIDE B \<le> Ld r 0" "?i1 + STRIDE B \<le> Ld r 1" using tile_fits[OF t k] by simp_all
  have istr: "(?i1 - NGHOSTS) div STRIDE B * lStr r 0 + (?i0 - NGHOSTS) div STRIDE B = k1 * lStr r 0 + k0"
    by (rule tile_number_of_corner(1)[OF S k(1)])
  from op consider io where "io < Orb r" "op \<in> set (orbital_block B MULT r h ?i0 ?i1 io)"
    | z where "op = Zero z" "z \<in> set (position_V (hV h) ! (k1 * lStr r 0 + k0))"
    unfolding tile_schedule_def istr by auto
  then show ?thesis
  proof cases
    case 1
    from in_tile_bulk(1,2,3)[OF t k 1(1) orbital_block_targets[OF fit 1(2)]] show ?thesis by simp
  next
    case 2
    have "k1 * lStr r 0 + k0 < lStr r 0 * lStr r 1" by (rule tile_number_of_corner(2)[OF S k])
    with reg 2(2) have z: "bulk r z" "tile_number B r z = k1 * lStr r 0 + k0"
      by (auto simp: regular_def)
    from bulk_in_tile(1)[OF t z(1)] have lt: "(x_of r z - NGHOSTS) div STRIDE B < lStr r 0" .
    have "((y_of r z - NGHOSTS) div STRIDE B * lStr r 0 + (x_of r z - NGHOSTS) div STRIDE B) mod lStr r 0
        = (k1 * lStr r 0 + k0) mod lStr r 0"
      using z(2) by (simp add: tile_number_def)
    then have x: "(x_of r z - NGHOSTS) div STRIDE B = k0" using lt k(1) by simp
    have "((y_of r z - NGHOSTS) div STRIDE B * lStr r 0 + (x_of r z - NGHOSTS) div STRIDE B) div lStr r 0
        = (k1 * lStr r 0 + k0) div lStr r 0"
      using z(2) by (simp add: tile_number_def)
    then have y: "(y_of r z - NGHOSTS) div STRIDE B = k1" using lt k(1) by simp
    show ?thesis using z(1) x y by (simp add: 2(1))
  qed
qed

lemma tile_schedule_site:
  assumes reg: "regular B r h" and bk: "bulk r i"
  shows "site_run MULT al p1 p2 i
           (tile_schedule B MULT r h (tile_origin B (x_of r i)) (tile_origin B (y_of r i))) x
       = (if i \<in> set (position_V (hV h) ! tile_number B r i) then 0
          else site_run MULT al p1 p2 i (site_ops B MULT r h i) x)"
proof -
  from reg have t: "tiled B r" by (simp add: regular_def)
  note S = tiled_extent(5)[OF t]
  let ?i0 = "tile_origin B (x_of r i)" and ?i1 = "tile_origin B (y_of r i)"
  note k = bulk_in_tile(1,2)[OF t bk]
  note it = bulk_in_tile(3)[OF t bk]
  have fit: "?i0 + STRIDE B \<le> Ld r 0" "?i1 + STRIDE B \<le> Ld r 1"
    using tile_fits[OF t k] by (simp_all add: tile_origin_def)
  have istr: "(?i1 - NGHOSTS) div STRIDE B * lStr r 0 + (?i0 - NGHOSTS) div STRIDE B = tile_number B r i"
    using S by (simp add: tile_origin_def tile_number_def)
  have io: "orb_of r i < Orb r" using bk by (simp add: bulk_def)
  have "site_run MULT al p1 p2 i (concat (map (orbital_block B MULT r h ?i0 ?i1) [0..<Orb r])) x
      = site_run MULT al p1 p2 i (orbital_block B MULT r h ?i0 ?i1 (orb_of r i)) x"
  proof (rule site_run_concat_one)
    show "distinct [0..<Orb r]" by simp
    show "orb_of r i \<in> set [0..<Orb r]" using io by simp
    fix io op assume "io \<noteq> orb_of r i" "op \<in> set (orbital_block B MULT r h ?i0 ?i1 io)"
    with orbital_block_targets[OF fit, of op MULT h io] show "target op \<noteq> i"
      by (auto simp: in_tile_def)
  qed
  also have "\<dots> = site_run MULT al p1 p2 i (site_ops B MULT r h i) x"
    by (rule orbital_block_site[OF fit it refl])
  finally show ?thesis
    unfolding tile_schedule_def istr by (simp add: site_run_append site_run_Zeros)
qed

lemma sweep_schedule_targets:
  assumes reg: "regular B r h" and op: "op \<in> set (sweep_schedule B MULT r h)"
  shows "bulk r (target op)"
proof -
  from op obtain k0 k1 where "k0 < lStr r 0" "k1 < lStr r 1"
      "op \<in> set (tile_schedule B MULT r h (NGHOSTS + k0 * STRIDE B) (NGHOSTS + k1 * STRIDE B))"
    by (auto simp: sweep_schedule_def)
  from tile_schedule_targets[OF reg this] show ?thesis by simp
qed

lemma sweep_schedule_site:
  assumes reg: "regular B r h" and bk: "bulk r i"
  shows "site_run MULT al p1 p2 i (sweep_schedule B MULT r h) x
       = (if i \<in> set (position_V (hV h) ! tile_number B r i) then 0
          else site_run MULT al p1 p2 i (site_ops B MULT r h i) x)"
proof -
  from reg have t: "tiled B r" by (simp add: regular_def)
  let ?k0 = "(x_of r i - NGHOSTS) div STRIDE B" and ?k1 = "(y_of r i - NGHOSTS) div STRIDE B"
  let ?row = "\<lambda>k1. concat (map (\<lambda>k0.
         tile_schedule B MULT r h (NGHOSTS + k0 * STRIDE B) (NGHOSTS + k1 * STRIDE B)) [0..<lStr r 0])"
  note k = bulk_in_tile(1,2)[OF t bk]
  have "site_run MULT al p1 p2 i (sweep_schedule B MULT r h) x = site_run MULT al p1 p2 i (?row ?k1) x"
    unfolding sweep_schedule_def
  proof (rule site_run_concat_one)
    show "distinct [0..<lStr r 1]" by simp
    show "?k1 \<in> set [0..<lStr r 1]" using k(2) by simp
    fix k1 op assume k1: "k1 \<in> set [0..<lStr r 1]" "k1 \<noteq> ?k1" and "op \<in> set (?row k1)"
    then obtain k0 where "k0 < lStr r 0"
        "op \<in> set (tile_schedule B MULT r h (NGHOSTS + k0 * STRIDE B) (NGHOSTS + k1 * STRIDE B))"
      by auto
    from tile_schedule_targets[OF reg this(1) _ this(2)] k1 show "target op \<noteq> i" by auto
  qed
  also have "\<dots> = site_run MULT al p1 p2 i
      (tile_schedule B MULT r h (NGHOSTS + ?k0 * STRIDE B) (NGHOSTS + ?k1 * STRIDE B)) x"
  proof (rule site_run_concat_one)
    show "distinct [0..<lStr r 0]" by simp
    show "?k0 \<in> set [0..<lStr r 0]" using k(1) by simp
    fix k0 op assume k0: "k0 \<in> set [0..<lStr r 0]" "k0 \<noteq> ?k0"
      and "op \<in> set (tile_schedule B MULT r h (NGHOSTS + k0 * STRIDE B) (NGHOSTS + ?k1 * STRIDE B))"
    from tile_schedule_targets[OF reg _ k(2) this(3)] k0 show "target op \<noteq> i" by auto
  qed
  finally show ?thesis using tile_schedule_site[OF reg bk, of MULT al p1 p2 x]
    by (simp add: tile_origin_def)
qed


subsection \<open>The step at a bulk site\<close>

lemma run_ops_site:
  assumes M: "2 \<le> memory kv" and idx: "index kv < memory kv"
  shows "v_data (run_ops MULT ops kv) i (index kv)
       = site_run MULT (colM2 kv = index kv) (\<lambda>j. v_data kv j (colM1 kv)) (\<lambda>j. v_data kv j (colM2 kv))
           i ops (v_data kv i (index kv))"
  using exec_ops_site[OF colM1_other[OF M idx], of MULT "colM2 kv" ops "v_data kv" i]
  by (simp add: run_ops_def col0_def)


lemma each_thread_map:
  "(\<And>t. t \<in> set ts \<Longrightarrow> step t = Inr (f t)) \<Longrightarrow> each_thread step ts = Inr (map f ts)"
  by (induction ts) (simp_all add: bind_f_def)

lemma regular_Multiply_thread:
  assumes "regular B (lattice t) (hamiltonian t)"
  shows "Multiply_thread B MULT t
       = Inr (t\<lparr>kpm := run_ops MULT (sweep_schedule B MULT (lattice t) (hamiltonian t)
                @ map Zero (vacancies_with_defects (hV (hamiltonian t)))) (inc_index (kpm t))\<rparr>)"
  by (simp add: Multiply_thread_def Multiply_local_def Multiply_ops_pure[OF assms] bind_f_def)

lemma regular_Multiply:
  assumes "\<forall>t \<in> set (threads W). regular B (lattice t) (hamiltonian t)"
  shows "Multiply B MULT W
       = Inr (Exchange_Boundaries (W\<lparr>threads := map (\<lambda>t.
           t\<lparr>kpm := run_ops MULT (sweep_schedule B MULT (lattice t) (hamiltonian t)
                @ map Zero (vacancies_with_defects (hV (hamiltonian t)))) (inc_index (kpm t))\<rparr>)
           (threads W)\<rparr>))"
proof -
  have "each_thread (Multiply_thread B MULT) (threads W) = Inr (map (\<lambda>t.
           t\<lparr>kpm := run_ops MULT (sweep_schedule B MULT (lattice t) (hamiltonian t)
                @ map Zero (vacancies_with_defects (hV (hamiltonian t)))) (inc_index (kpm t))\<rparr>)
           (threads W))"
    by (rule each_thread_map) (use assms regular_Multiply_thread in blast)
  then show ?thesis by (simp add: Multiply_def bind_f_def)
qed




subsection \<open>The world with one tile\<close>





lemma small_W_simps:
  "length (threads (small_W r h kv)) = 1" "lattice (threads (small_W r h kv) ! 0) = r"
  "kpm (threads (small_W r h kv) ! 0) = kv" "hamiltonian (threads (small_W r h kv) ! 0) = h"
  "set (threads (small_W r h kv))
     = {\<lparr>lattice = r, hamiltonian = h, block = (\<lambda>d b. 0), kpm = kv, ghosts = (\<lambda>a. 0)\<rparr>}"
  by (simp_all add: small_W_def)







subsection \<open>\<open>Multiply2\<close> at a bulk site\<close>

lemma Multiply2_cell_targets:
  assumes nd: "Nd r = Ld r 0 * Ld r 1"
    and op: "op \<in> set (let i = ix + iy * Ld r 0 + io * Nd r in
            Init i #
            map (\<lambda>ib. Add i (of_nat (MULT + 1) * t_h h ib io) (nat (int i + d_h h ib io)) 1)
              [0..<NHoppings_h h io])"
  shows "target op = set_index r ix iy io"
  using op by (auto simp: Let_def nd set_index_eq algebra_simps)

lemma Multiply2_ops_targets:
  assumes nd: "Nd r = Ld r 0 * Ld r 1" and op: "op \<in> set (Multiply2_ops MULT r h)"
  shows "bulk r (target op)"
proof -
  from op obtain io iy ix where io: "io < Orb r" and iy: "NGHOSTS \<le> iy" "iy < Ld r 1 - NGHOSTS"
      and ix: "NGHOSTS \<le> ix" "ix < Ld r 0 - NGHOSTS"
      and "op \<in> set (let i = ix + iy * Ld r 0 + io * Nd r in
            Init i #
            map (\<lambda>ib. Add i (of_nat (MULT + 1) * t_h h ib io) (nat (int i + d_h h ib io)) 1)
              [0..<NHoppings_h h io])"
    unfolding Multiply2_ops_def by auto
  from Multiply2_cell_targets[OF nd this(6)] have t: "target op = set_index r ix iy io" .
  have "ix < Ld r 0" "iy < Ld r 1" using ix iy by simp_all
  then show ?thesis using io ix iy by (simp add: bulk_def t decode_site)
qed

lemma Multiply2_ops_site:
  assumes nd: "Nd r = Ld r 0 * Ld r 1" and bk: "bulk r i"
  shows "site_run MULT al p1 p2 i (Multiply2_ops MULT r h) x
       = site_run MULT al p1 p2 i
           (Init i # map (\<lambda>ib. Add i (of_nat (MULT + 1) * t_h h ib (orb_of r i))
                            (nat (int i + d_h h ib (orb_of r i))) 1)
              [0..<NHoppings_h h (orb_of r i)]) x"
proof -
  let ?cell = "\<lambda>io iy ix. (let i = ix + iy * Ld r 0 + io * Nd r in
            Init i #
            map (\<lambda>ib. Add i (of_nat (MULT + 1) * t_h h ib io) (nat (int i + d_h h ib io)) 1)
              [0..<NHoppings_h h io])"
  let ?row = "\<lambda>io iy. concat (map (?cell io iy) [NGHOSTS..<Ld r 0 - NGHOSTS])"
  let ?plane = "\<lambda>io. concat (map (?row io) [NGHOSTS..<Ld r 1 - NGHOSTS])"
  from bk have c: "NGHOSTS \<le> x_of r i" "x_of r i < Ld r 0 - NGHOSTS"
      "NGHOSTS \<le> y_of r i" "y_of r i < Ld r 1 - NGHOSTS" "orb_of r i < Orb r"
    by (simp_all add: bulk_def)
  have tgt: "x_of r (target op) = ix \<and> y_of r (target op) = iy \<and> orb_of r (target op) = io"
    if "op \<in> set (?cell io iy ix)" "ix \<in> set [NGHOSTS..<Ld r 0 - NGHOSTS]"
       "iy \<in> set [NGHOSTS..<Ld r 1 - NGHOSTS]" for op io iy ix
  proof -
    have "ix < Ld r 0" "iy < Ld r 1" using that(2,3) by auto
    then show ?thesis using Multiply2_cell_targets[OF nd that(1)] by (simp add: decode_site)
  qed
  have "site_run MULT al p1 p2 i (Multiply2_ops MULT r h) x
      = site_run MULT al p1 p2 i (?plane (orb_of r i)) x"
    unfolding Multiply2_ops_def
  proof (rule site_run_concat_one)
    show "distinct [0..<Orb r]" by simp
    show "orb_of r i \<in> set [0..<Orb r]" using c(5) by simp
    fix io op assume "io \<noteq> orb_of r i" "op \<in> set (?plane io)"
    then obtain iy ix where "op \<in> set (?cell io iy ix)" "ix \<in> set [NGHOSTS..<Ld r 0 - NGHOSTS]"
       "iy \<in> set [NGHOSTS..<Ld r 1 - NGHOSTS]" by auto
    from tgt[OF this] \<open>io \<noteq> orb_of r i\<close> show "target op \<noteq> i" by auto
  qed
  also have "\<dots> = site_run MULT al p1 p2 i (?row (orb_of r i) (y_of r i)) x"
  proof (rule site_run_concat_one)
    show "distinct [NGHOSTS..<Ld r 1 - NGHOSTS]" by simp
    show "y_of r i \<in> set [NGHOSTS..<Ld r 1 - NGHOSTS]" using c(3,4) by simp
    fix iy op assume iy: "iy \<in> set [NGHOSTS..<Ld r 1 - NGHOSTS]" "iy \<noteq> y_of r i"
      and "op \<in> set (?row (orb_of r i) iy)"
    then obtain ix where "op \<in> set (?cell (orb_of r i) iy ix)" "ix \<in> set [NGHOSTS..<Ld r 0 - NGHOSTS]"
      by auto
    from tgt[OF this iy(1)] iy(2) show "target op \<noteq> i" by auto
  qed
  also have "\<dots> = site_run MULT al p1 p2 i (?cell (orb_of r i) (y_of r i) (x_of r i)) x"
  proof (rule site_run_concat_one)
    show "distinct [NGHOSTS..<Ld r 0 - NGHOSTS]" by simp
    show "x_of r i \<in> set [NGHOSTS..<Ld r 0 - NGHOSTS]" using c(1,2) by simp
    fix ix op assume ix: "ix \<in> set [NGHOSTS..<Ld r 0 - NGHOSTS]" "ix \<noteq> x_of r i"
      and "op \<in> set (?cell (orb_of r i) (y_of r i) ix)"
    from tgt[OF this(3) ix(1)] c(3,4) ix(2) show "target op \<noteq> i" by auto
  qed
  also have "x_of r i + y_of r i * Ld r 0 + orb_of r i * Nd r = i"
    using encode_decode[of r i] by (simp add: nd set_index_eq algebra_simps)
  then have "?cell (orb_of r i) (y_of r i) (x_of r i)
      = Init i # map (\<lambda>ib. Add i (of_nat (MULT + 1) * t_h h ib (orb_of r i))
                            (nat (int i + d_h h ib (orb_of r i))) 1)
              [0..<NHoppings_h h (orb_of r i)]"
    by (simp only: Let_def)
  finally show ?thesis .
qed


subsection \<open>\<open>Multiply\<close> against \<open>Multiply2\<close>\<close>

lemma run_ops_cong:
  assumes M: "2 \<le> memory kv" and idx: "index kv < memory kv"
    and site: "\<And>i x. site_run MULT (colM2 kv = index kv) (\<lambda>j. v_data kv j (colM1 kv))
          (\<lambda>j. v_data kv j (colM2 kv)) i ops x
        = site_run MULT (colM2 kv = index kv) (\<lambda>j. v_data kv j (colM1 kv))
          (\<lambda>j. v_data kv j (colM2 kv)) i ops' x"
  shows "run_ops MULT ops kv = run_ops MULT ops' kv"
proof -
  have "v_data (run_ops MULT ops kv) i c = v_data (run_ops MULT ops' kv) i c" for i c
  proof (cases "c = index kv")
    case True
    show ?thesis unfolding True run_ops_site[OF M idx] by (rule site)
  next
    case False
    then show ?thesis by (simp add: run_ops_frame)
  qed
  then have "v_data (run_ops MULT ops kv) = v_data (run_ops MULT ops' kv)" by (intro ext)
  then show ?thesis by (simp add: run_ops_def)
qed

lemma plain_site_ops:
  assumes pl: "plain B r h" and bk: "bulk r i"
  shows "site_ops B MULT r h i
       = Init i # map (\<lambda>ib. Add i (of_nat (MULT + 1) * t_h h ib (orb_of r i))
                            (nat (int i + d_h h ib (orb_of r i))) 1)
              [0..<NHoppings_h h (orb_of r i)]"
proof -
  from bk have io: "orb_of r i < Orb r" by (simp add: bulk_def)
  from pl io have a: "Anderson_orb_address h (orb_of r i) < - 1"
    and n: "NHoppings_h h (orb_of r i) = NHoppings (hr h) (orb_of r i)"
    and tab: "\<And>ib. ib < NHoppings (hr h) (orb_of r i)
        \<Longrightarrow> t_h h ib (orb_of r i) = hopping (hr h) ib (orb_of r i)
          \<and> d_h h ib (orb_of r i) = distance (hr h) ib (orb_of r i)"
    and field: "T_complex B \<longrightarrow> vect_pot r 0 1 = 0"
    by (simp_all add: plain_def)
  have one: "peierls2 B (hop_phase B r h i ib) = 1" for ib
    using field by (simp add: peierls2_def hop_phase_def)
  show ?thesis
    unfolding site_ops_def one n using a tab by simp
qed

lemma plain_local:
  assumes pl: "plain B r h" and M: "2 \<le> memory kv"
  shows "Multiply_local B MULT r h kv = Inr (Multiply2_local MULT r h kv)"
proof -
  from pl have reg: "regular B r h" and nv: "vacancies_with_defects (hV h) = []"
    and empty: "\<And>istr. istr < lStr r 0 * lStr r 1 \<Longrightarrow> position_V (hV h) ! istr = []"
    by (simp_all add: plain_def)
  from reg have t: "tiled B r" by (simp add: regular_def)
  then have nd: "Nd r = Ld r 0 * Ld r 1" by (simp add: tiled_def)
  let ?kv = "inc_index kv"
  have M': "2 \<le> memory ?kv" and idx: "index ?kv < memory ?kv"
    using M by (simp_all add: inc_index_def)
  have "run_ops MULT (sweep_schedule B MULT r h) ?kv = run_ops MULT (Multiply2_ops MULT r h) ?kv"
  proof (rule run_ops_cong[OF M' idx])
    fix i x
    let ?run = "site_run MULT (colM2 ?kv = index ?kv) (\<lambda>j. v_data ?kv j (colM1 ?kv))
          (\<lambda>j. v_data ?kv j (colM2 ?kv)) i"
    show "?run (sweep_schedule B MULT r h) x = ?run (Multiply2_ops MULT r h) x"
    proof (cases "bulk r i")
      case True
      have "tile_number B r i < lStr r 0 * lStr r 1"
        unfolding tile_number_def
        using tile_number_of_corner(2)[OF tiled_extent(5)[OF t] bulk_in_tile(1,2)[OF t True]] .
      then have "position_V (hV h) ! tile_number B r i = []" by (rule empty)
      then show ?thesis
        by (simp add: sweep_schedule_site[OF reg True] Multiply2_ops_site[OF nd True]
            plain_site_ops[OF pl True])
    next
      case False
      have "?run (sweep_schedule B MULT r h) x = x"
        by (rule site_run_other) (use sweep_schedule_targets[OF reg] False in auto)
      moreover have "?run (Multiply2_ops MULT r h) x = x"
        by (rule site_run_other) (use Multiply2_ops_targets[OF nd] False in auto)
      ultimately show ?thesis by simp
    qed
  qed
  then show ?thesis
    by (simp add: Multiply_local_def Multiply_ops_pure[OF reg] nv bind_f_def Multiply2_local_def)
qed

text \<open>
  C4, as amended. For ring buffers of at least two slots, on lattices whose bulk is cut
  into whole tiles, and for Hamiltonians with no Anderson disorder, no structural disorder,
  no vacancies and no magnetic field whose tables \<open>NHoppings\<close>, \<open>t\<close> and \<open>d\<close> hold the regular
  hoppings of \<open>hr\<close>, \<open>Multiply<MULT>\<close> returns, and returns the very world that
  \<open>Multiply2<MULT>\<close> leaves: the two write identical values into the new slot at every site,
  bulk sites included, of every thread.
\<close>

theorem Multiply_agrees_with_Multiply2:
  assumes "\<forall>t \<in> set (threads W). plain B (lattice t) (hamiltonian t) \<and> 2 \<le> memory (kpm t)"
  shows "Multiply B MULT W = Inr (Multiply2 MULT W)
       \<and> (\<forall>W'. Multiply B MULT W = Inr W' \<longrightarrow>
            (\<forall>k < length (threads W). \<forall>i. bulk (lattice (threads W ! k)) i \<longrightarrow>
               phi_of (threads W' ! k) i = phi_of (threads (Multiply2 MULT W) ! k) i))"
proof -
  have "each_thread (Multiply_thread B MULT) (threads W) = Inr (map (Multiply2_thread MULT) (threads W))"
  proof (rule each_thread_map)
    fix t assume "t \<in> set (threads W)"
    with assms have "plain B (lattice t) (hamiltonian t)" "2 \<le> memory (kpm t)" by auto
    from plain_local[OF this] show "Multiply_thread B MULT t = Inr (Multiply2_thread MULT t)"
      by (simp add: Multiply_thread_def Multiply2_thread_def bind_f_def)
  qed
  then have "Multiply B MULT W = Inr (Multiply2 MULT W)"
    by (simp add: Multiply_def Multiply2_def bind_f_def)
  then show ?thesis by simp
qed


lemma small_tiled: "tiled small_B small_r"
  by (simp add: tiled_def lattice_ok_def small_B_def small_r_def NGHOSTS_def)

lemma small_coordinates:
  "x_of small_r i = i mod 6" "y_of small_r i = i div 6 mod 6" "orb_of small_r i = i div 36"
  "Ld small_r 0 = 6" "Ld small_r 1 = 6" "Ld small_r (Suc 0) = 6" "Orb small_r = 1"
  by (simp_all add: x_of_def y_of_def orb_of_def small_r_def)

lemma small_bulk: "bulk small_r 14"
  by (simp add: bulk_def small_coordinates NGHOSTS_def)

lemma small_plain: "plain small_B small_r plain_h"
proof -
  have tiles: "lStr small_r 0 * lStr small_r 1 = 1" by (simp add: small_r_def)
  have lists: "cross_mozaic_indexes plain_h = []" "hd_h plain_h = []" "cross_mozaic plain_h = [True]"
      "position_V (hV plain_h) = [[]]" "vacancies_with_defects (hV plain_h) = []"
    by (simp_all add: plain_h_def small_h_def)
  have known: "U_known small_r plain_h i" for i
    by (simp add: U_known_def plain_h_def small_h_def)
  have "\<forall>istr<1. istr < length [True] \<and> [True] ! istr \<and> istr < length [[]::nat list]
      \<and> (\<forall>k \<in> set ([[]] ! istr). bulk small_r k \<and> tile_number small_B small_r k = istr)"
    by simp
  moreover have "\<forall>i < Nd small_r * Orb small_r. bulk small_r i \<longrightarrow> U_known small_r plain_h i"
    using known by blast
  ultimately have reg: "regular small_B small_r plain_h"
    unfolding regular_def tiles lists using small_tiled by blast
  have "\<forall>io < Orb small_r. Anderson_orb_address plain_h io < - 1"
    by (simp add: plain_h_def)
  moreover have "\<forall>istr < 1. [[]::nat list] ! istr = []" by simp
  moreover have "T_complex small_B \<longrightarrow> vect_pot small_r 0 1 = 0" by (simp add: small_B_def)
  moreover have "\<forall>io < Orb small_r. NHoppings_h plain_h io = NHoppings (hr plain_h) io
          \<and> (\<forall>ib < NHoppings (hr plain_h) io. t_h plain_h ib io = hopping (hr plain_h) ib io
                \<and> d_h plain_h ib io = distance (hr plain_h) ib io)"
    by (simp add: plain_h_def small_h_def)
  ultimately show ?thesis
    unfolding plain_def tiles lists using reg by blast
qed

lemma Exchange_Boundaries_bulk_phi:
  assumes "k < length (threads W)" "lattice_ok (lattice (threads W ! k))"
    "bulk (lattice (threads W ! k)) i"
  shows "phi_of (threads (Exchange_Boundaries W) ! k) i = phi_of (threads W ! k) i"
  using Exchange_Boundaries_frame(1)[OF assms(1)] Exchange_Boundaries_bulk[OF assms]
  by (simp add: phi_of_def)

lemma small_Multiply2_value:
  assumes "lattice_ok r" "bulk r i"
  shows "phi_of (threads (Multiply2 MULT (small_W r h kv)) ! 0) i
       = v_data (run_ops MULT (Multiply2_ops MULT r h) (inc_index kv)) i (index (inc_index kv))"
proof -
  let ?W = "small_W r h kv\<lparr>threads := map (Multiply2_thread MULT) (threads (small_W r h kv))\<rparr>"
  have t: "threads ?W ! 0 = \<lparr>lattice = r, hamiltonian = h, block = (\<lambda>d b. 0),
      kpm = Multiply2_local MULT r h kv, ghosts = (\<lambda>a. 0)\<rparr>"
    by (simp add: small_W_def Multiply2_thread_def)
  have l: "lattice (threads ?W ! 0) = r" by (simp only: t) simp
  have k: "0 < length (threads ?W)" by (simp add: small_W_def)
  have "phi_of (threads (Exchange_Boundaries ?W) ! 0) i = phi_of (threads ?W ! 0) i"
    using k by (rule Exchange_Boundaries_bulk_phi) (simp_all only: l assms)
  also have "\<dots> = v_data (Multiply2_local MULT r h kv) i (index (Multiply2_local MULT r h kv))"
    by (simp only: t phi_of_def) simp
  finally show ?thesis
    by (simp add: Multiply2_def Multiply2_local_def run_ops_frame)
qed


lemma small_schedule:
  "sweep_schedule small_B MULT small_r plain_h
     = [Init 14, Init 15, Init 20, Init 21,
        Add 14 (of_nat (MULT + 1) * 2) 15 1, Add 15 (of_nat (MULT + 1) * 2) 16 1,
        Add 20 (of_nat (MULT + 1) * 2) 21 1, Add 21 (of_nat (MULT + 1) * 2) 22 1]"
proof -
  have two: "[0..<2] = [0, Suc 0]" by (simp add: upt_conv_Cons)
  show ?thesis
    by (simp add: sweep_schedule_def tile_schedule_def orbital_block_def tile_block_def set_index_def
        basis_def small_B_def small_r_def plain_h_def small_h_def peierls2_def NGHOSTS_def two)
qed

lemma small_Multiply2_ops:
  "Multiply2_ops MULT small_r plain_h
     = [Init 14, Add 14 (of_nat (MULT + 1) * 2) 15 1, Init 15, Add 15 (of_nat (MULT + 1) * 2) 16 1,
        Init 20, Add 20 (of_nat (MULT + 1) * 2) 21 1, Init 21, Add 21 (of_nat (MULT + 1) * 2) 22 1]"
  by (simp add: Multiply2_ops_def small_r_def plain_h_def small_h_def NGHOSTS_def Let_def)

text \<open>
  With two slots, \<open>psi\<^sub>-\<^sub>1[j] = j\<close> and \<open>psi\<^sub>-\<^sub>2 = 5\<close>, both paths leave
  \<open>2 * 2 * 15 - 5 = 55\<close> at the site 14.
\<close>

theorem Multiply_agrees_with_Multiply2_witness:
  "plain small_B small_r plain_h \<and> 2 \<le> memory small_kpm \<and> bulk small_r 14
     \<and> Multiply small_B 1 (small_W small_r plain_h small_kpm)
         = Inr (Multiply2 1 (small_W small_r plain_h small_kpm))
     \<and> phi_of (threads (Multiply2 1 (small_W small_r plain_h small_kpm)) ! 0) 14 = 55"
proof -
  let ?W = "small_W small_r plain_h small_kpm"
  have M: "2 \<le> memory small_kpm" by (simp add: small_kpm_def)
  have hyp: "\<forall>t \<in> set (threads ?W). plain small_B (lattice t) (hamiltonian t) \<and> 2 \<le> memory (kpm t)"
    using small_plain M by (simp add: small_W_simps)
  from Multiply_agrees_with_Multiply2[OF hyp, of 1]
  have same: "Multiply small_B 1 ?W = Inr (Multiply2 1 ?W)" by blast
  have ok: "lattice_ok small_r" using small_tiled by (simp add: tiled_def)
  have "phi_of (threads (Multiply2 1 ?W) ! 0) 14
      = v_data (run_ops 1 (Multiply2_ops 1 small_r plain_h) (inc_index small_kpm)) 14
          (index (inc_index small_kpm))"
    by (rule small_Multiply2_value[OF ok small_bulk])
  also have "\<dots> = 55"
    by (simp add: small_Multiply2_ops run_ops_def exec_ops_def inc_index_def small_kpm_def
        col0_def colM1_def colM2_def)
  finally show ?thesis using small_plain M small_bulk same by blast
qed

text \<open>
  C4 as stated holds for every state of the ring buffer. With a single slot (the size of
  the vectors \<open>phi0\<close> of \<open>Simulation.hpp\<close>) the slots read as \<open>psi\<^sub>-\<^sub>1\<close> and \<open>psi\<^sub>-\<^sub>2\<close> are the
  slot being written, and the two paths read it in different orders: \<open>Multiply<0>\<close>
  initialises the whole tile before the hoppings and leaves 0 at the site 14, whose
  neighbour 15 lies in the same tile; \<open>Multiply2<0>\<close> goes site by site and leaves
  \<open>2 * 7 = 14\<close>.
\<close>

theorem Multiply_agrees_with_Multiply2_counterexample:
  "plain small_B small_r plain_h \<and> memory one_kpm = 1 \<and> bulk small_r 14
     \<and> (\<exists>W'. Multiply small_B 0 (small_W small_r plain_h one_kpm) = Inr W'
           \<and> phi_of (threads W' ! 0) 14 = 0
           \<and> phi_of (threads (Multiply2 0 (small_W small_r plain_h one_kpm)) ! 0) 14 = 14)"
proof -
  let ?W = "small_W small_r plain_h one_kpm"
  from small_plain have reg: "regular small_B small_r plain_h" by (simp add: plain_def)
  then have all: "\<forall>t \<in> set (threads ?W). regular small_B (lattice t) (hamiltonian t)"
    by (simp add: small_W_simps)
  have ok: "lattice_ok small_r" using small_tiled by (simp add: tiled_def)
  from regular_Multiply[OF all, of 0] obtain W' where run: "Multiply small_B 0 ?W = Inr W'" by blast
  have k: "0 < length (threads ?W)" by (simp add: small_W_simps)
  from Multiply_bulk_value[OF run k] ok small_bulk
  have "phi_of (threads W' ! 0) 14
      = v_data (run_ops 0 (sweep_schedule small_B 0 small_r plain_h
            @ map Zero (vacancies_with_defects (hV plain_h))) (inc_index one_kpm)) 14
          (index (inc_index one_kpm))"
    by (simp add: small_W_simps Multiply_ops_pure[OF reg])
  also have "\<dots> = 0"
    unfolding small_schedule
    by (simp add: run_ops_def exec_ops_def inc_index_def one_kpm_def
        col0_def colM1_def colM2_def plain_h_def)
  finally have tiled_path: "phi_of (threads W' ! 0) 14 = 0" .
  have "phi_of (threads (Multiply2 0 ?W) ! 0) 14
      = v_data (run_ops 0 (Multiply2_ops 0 small_r plain_h) (inc_index one_kpm)) 14
          (index (inc_index one_kpm))"
    by (rule small_Multiply2_value[OF ok small_bulk])
  also have "\<dots> = 14"
    by (simp add: small_Multiply2_ops run_ops_def exec_ops_def inc_index_def one_kpm_def
        col0_def colM1_def colM2_def)
  finally have simple_path: "phi_of (threads (Multiply2 0 ?W) ! 0) 14 = 14" .
  have "memory one_kpm = 1" by (simp add: one_kpm_def)
  with small_plain small_bulk run tiled_path simple_path show ?thesis by blast
qed


subsection \<open>Writes in sequence\<close>

lemma write_all_lookup:
  assumes "(a, x) \<in> set ws" and "\<And>x'. (a, x') \<in> set ws \<Longrightarrow> x' = x"
  shows "write_all ws f a = x"
  using assms
proof (induction ws arbitrary: f)
  case Nil
  then show ?case by simp
next
  case (Cons w ws)
  obtain a' x' where w: "w = (a', x')" by (cases w)
  have step: "write_all (w # ws) f = write_all ws (f(a' := x'))" by (simp add: write_all_def w)
  show ?case
  proof (cases "a \<in> fst ` set ws")
    case True
    then obtain x'' where "(a, x'') \<in> set ws" by auto
    moreover from this Cons.prems(2)[of x''] have "x'' = x" by simp
    ultimately have "(a, x) \<in> set ws" by simp
    then show ?thesis unfolding step by (rule Cons.IH) (use Cons.prems(2) in auto)
  next
    case False
    then have "write_all ws (f(a' := x')) a = (f(a' := x')) a" by (rule write_all_other)
    moreover from False Cons.prems(1) have "w = (a, x)" by (auto simp: image_iff)
    ultimately show ?thesis unfolding step using w by simp
  qed
qed

subsection \<open>Slots of the staging array and cells of the faces\<close>

lemma slot_inj:
  assumes "i < max_d r d" "i' < max_d r d" "ig < NGHOSTS" "ig' < NGHOSTS"
    and "slot r d io i ig = slot r d io' i' ig'"
  shows "io = io' \<and> i = i' \<and> ig = ig'"
proof -
  have m: "0 < max_d r d" using assms(1) by simp
  have "(i + (ig + NGHOSTS * io) * max_d r d) mod max_d r d = (i' + (ig' + NGHOSTS * io') * max_d r d) mod max_d r d"
    using assms(5) by (simp add: slot_def)
  then have i: "i = i'" using assms(1,2) by simp
  have "(i + (ig + NGHOSTS * io) * max_d r d) div max_d r d = (i' + (ig' + NGHOSTS * io') * max_d r d) div max_d r d"
    using assms(5) by (simp add: slot_def)
  then have q: "ig + NGHOSTS * io = ig' + NGHOSTS * io'" using assms(1,2) m by simp
  then have "(ig + NGHOSTS * io) mod NGHOSTS = (ig' + NGHOSTS * io') mod NGHOSTS" by simp
  then have g: "ig = ig'" using assms(3,4) by simp
  from q g have "NGHOSTS * io = NGHOSTS * io'" by simp
  then have "io = io'" by (simp add: NGHOSTS_def)
  with i g show ?thesis by simp
qed

lemma slot_less:
  assumes "io < Orb r" "i < max_d r d" "ig < NGHOSTS"
  shows "slot r d io i ig < BSize r d"
proof -
  have "ig + NGHOSTS * io < NGHOSTS * Orb r"
  proof -
    have "NGHOSTS * Suc io \<le> NGHOSTS * Orb r" using assms(1) by (intro mult_le_mono2) simp
    then show ?thesis using assms(3) by simp
  qed
  then have "Suc (ig + NGHOSTS * io) * max_d r d \<le> NGHOSTS * Orb r * max_d r d"
    by (intro mult_le_mono1) simp
  then show ?thesis using assms(2) by (simp add: slot_def BSize_def algebra_simps)
qed

lemma ghost_cell:
  assumes d: "d < 2" and b: "b < 2"
  shows "cell MemIndEnd r d b io i ig
       = set_index r (if d = 0 then (if b = 0 then ig else Ld r 0 - NGHOSTS + ig) else i)
           (if d = 0 then NGHOSTS + i else (if b = 0 then ig else Ld r 1 - NGHOSTS + ig)) io"
proof -
  consider "d = 0" "b = 0" | "d = 0" "b = 1" | "d = 1" "b = 0" | "d = 1" "b = 1"
    using d b by linarith
  then show ?thesis
    by cases (simp_all add: cell_def MemIndEnd_def stride_def stride_ghosts_def set_index_eq algebra_simps)
qed

lemma face_cell:
  assumes d: "d < 2" and b: "b < 2"
  shows "cell MemIndBeg r d b io i ig
       = set_index r (if d = 0 then (if b = 0 then NGHOSTS + ig else Ld r 0 - 2 * NGHOSTS + ig) else i)
           (if d = 0 then NGHOSTS + i else (if b = 0 then NGHOSTS + ig else Ld r 1 - 2 * NGHOSTS + ig)) io"
proof -
  consider "d = 0" "b = 0" | "d = 0" "b = 1" | "d = 1" "b = 0" | "d = 1" "b = 1"
    using d b by linarith
  then show ?thesis
    by cases (simp_all add: cell_def MemIndBeg_def stride_def stride_ghosts_def set_index_eq algebra_simps)
qed

lemma ghost_cell_inj:
  assumes ok: "lattice_ok r" and d: "d < 2" and b: "b < 2" "b' < 2"
    and i: "i < max_d r d" "i' < max_d r d" and ig: "ig < NGHOSTS" "ig' < NGHOSTS"
    and eq: "cell MemIndEnd r d b io i ig = cell MemIndEnd r d b' io' i' ig'"
  shows "b = b' \<and> io = io' \<and> i = i' \<and> ig = ig'"
proof -
  from ok have L: "2 * NGHOSTS \<le> Ld r 0" "2 * NGHOSTS \<le> Ld r 1" "ld r 1 = Ld r 1 - 2 * NGHOSTS"
    by (simp_all add: lattice_ok_def)
  let ?x = "\<lambda>b i ig. if d = 0 then (if b = 0 then ig else Ld r 0 - NGHOSTS + ig) else i"
  let ?y = "\<lambda>b i ig. if d = 0 then NGHOSTS + i else (if b = 0 then ig else Ld r 1 - NGHOSTS + ig)"
  have bound: "?x c j jg < Ld r 0 \<and> ?y c j jg < Ld r 1" if "j < max_d r d" "jg < NGHOSTS" for c j jg
    using that L by (auto simp: max_d_def)
  have "set_index r (?x b i ig) (?y b i ig) io = set_index r (?x b' i' ig') (?y b' i' ig') io'"
    using eq unfolding ghost_cell[OF d b(1)] ghost_cell[OF d b(2)] .
  from set_index_inj[OF _ _ _ _ this] bound[OF i(1) ig(1), of b] bound[OF i(2) ig(2), of b']
  have c: "?x b i ig = ?x b' i' ig'" "?y b i ig = ?y b' i' ig'" "io = io'" by blast+
  have "b = b' \<and> i = i' \<and> ig = ig'"
  proof (cases "d = 0")
    case True
    with c have x: "(if b = 0 then ig else Ld r 0 - NGHOSTS + ig) = (if b' = 0 then ig' else Ld r 0 - NGHOSTS + ig')"
      and y: "i = i'" by simp_all
    from x ig L(1) b show ?thesis using y by (auto split: if_splits)
  next
    case False
    with c have y: "(if b = 0 then ig else Ld r 1 - NGHOSTS + ig) = (if b' = 0 then ig' else Ld r 1 - NGHOSTS + ig')"
      and x: "i = i'" by simp_all
    from y ig L(2) b show ?thesis using x by (auto split: if_splits)
  qed
  with c(3) show ?thesis by simp
qed


subsection \<open>The three parts of the pass for one axis\<close>

lemma stage_value:
  assumes r: "r = lattice t" and b: "b < 2" and io: "io < Orb r" and i: "i < max_d r d"
    and ig: "ig < NGHOSTS"
  shows "ghosts (stage d t) (b * BSize r d + slot r d io i ig) = phi_of t (cell MemIndBeg r d b io i ig)"
proof -
  let ?ws = "face_loop r d (\<lambda>io i ig.
              [(slot r d io i ig, phi_of t (cell MemIndBeg r d 0 io i ig)),
               (BSize r d + slot r d io i ig, phi_of t (cell MemIndBeg r d 1 io i ig))])"
  have b01: "b = 0 \<or> b = 1" using b by linarith
  have "write_all ?ws (ghosts t) (b * BSize r d + slot r d io i ig)
      = phi_of t (cell MemIndBeg r d b io i ig)"
  proof (rule write_all_lookup)
    show "(b * BSize r d + slot r d io i ig, phi_of t (cell MemIndBeg r d b io i ig)) \<in> set ?ws"
      unfolding face_loop_mem
    proof (intro exI conjI)
      show "io < Orb r" "i < max_d r d" "ig < NGHOSTS" by fact+
      show "(b * BSize r d + slot r d io i ig, phi_of t (cell MemIndBeg r d b io i ig))
          \<in> set [(slot r d io i ig, phi_of t (cell MemIndBeg r d 0 io i ig)),
               (BSize r d + slot r d io i ig, phi_of t (cell MemIndBeg r d 1 io i ig))]"
        using b01 by auto
    qed
    fix x' assume "(b * BSize r d + slot r d io i ig, x') \<in> set ?ws"
    then obtain io' i' ig' where k: "io' < Orb r" "i' < max_d r d" "ig' < NGHOSTS"
      and alt: "(b * BSize r d + slot r d io i ig = slot r d io' i' ig'
            \<and> x' = phi_of t (cell MemIndBeg r d 0 io' i' ig'))
          \<or> (b * BSize r d + slot r d io i ig = BSize r d + slot r d io' i' ig'
            \<and> x' = phi_of t (cell MemIndBeg r d 1 io' i' ig'))"
      unfolding face_loop_mem by auto
    note lt = slot_less[OF io i ig] slot_less[OF k]
    from b01 show "x' = phi_of t (cell MemIndBeg r d b io i ig)"
    proof
      assume b0: "b = 0"
      with alt lt have "slot r d io i ig = slot r d io' i' ig'"
          and x': "x' = phi_of t (cell MemIndBeg r d 0 io' i' ig')" by auto
      from slot_inj[OF i k(2) ig k(3) this(1)] x' b0 show ?thesis by simp
    next
      assume b1: "b = 1"
      with alt lt have "slot r d io i ig = slot r d io' i' ig'"
          and x': "x' = phi_of t (cell MemIndBeg r d 1 io' i' ig')" by auto
      from slot_inj[OF i k(2) ig k(3) this(1)] x' b1 show ?thesis by simp
    qed
  qed
  then show ?thesis by (simp add: stage_def Let_def r)
qed

lemma publish_value:
  assumes ids: "\<And>k. k < length ts \<Longrightarrow> thread_id (lattice (ts ! k)) = k \<and> BSize (lattice (ts ! k)) d = B"
    and n: "n < length ts" and a: "a < 2 * B"
  shows "foldl (publish d) G ts (2 * B * n + a) = ghosts (ts ! n) a"
  using ids n
proof (induction ts rule: rev_induct)
  case Nil
  then show ?case by simp
next
  case (snoc t ts)
  have last: "thread_id (lattice t) = length ts" "BSize (lattice t) d = B"
    using snoc.prems(1)[of "length ts"] by simp_all
  have step: "foldl (publish d) G (ts @ [t])
      = std_copy (ghosts t) 0 (2 * B) (foldl (publish d) G ts) (2 * B * length ts)"
    by (simp add: publish_def Let_def last)
  show ?case
  proof (cases "n < length ts")
    case True
    then have "Suc n * (2 * B) \<le> length ts * (2 * B)" by (intro mult_le_mono1) simp
    then have out: "2 * B * n + a < 2 * B * length ts" using a by (simp add: algebra_simps)
    have ids': "thread_id (lattice (ts ! k)) = k \<and> BSize (lattice (ts ! k)) d = B"
      if "k < length ts" for k
      using snoc.prems(1)[of k] that by (simp add: nth_append)
    have "foldl (publish d) G ts (2 * B * n + a) = ghosts (ts ! n) a"
      using ids' True by (rule snoc.IH)
    then show ?thesis unfolding step using out True by (simp add: std_copy_def nth_append)
  next
    case False
    with snoc.prems(2) have n: "n = length ts" by simp
    show ?thesis unfolding step using a by (simp add: std_copy_def n)
  qed
qed

lemma fetch_value:
  assumes r: "r = lattice t" and b: "b < 2" and a: "a < BSize r d"
  shows "ghosts (fetch d G t) (b * BSize r d + a)
       = G (2 * block t d b * BSize r d + (1 - b) * BSize r d + a)"
proof -
  have "b = 0 \<or> b = 1" using b by linarith
  then show ?thesis using a by (auto simp: fetch_def Let_def std_copy_def r)
qed

lemma unstage_value:
  assumes r: "r = lattice t" and ok: "lattice_ok r" and d: "d < 2" and b: "b < 2"
    and io: "io < Orb r" and i: "i < max_d r d" and ig: "ig < NGHOSTS"
  shows "phi_of (unstage d t) (cell MemIndEnd r d b io i ig) = ghosts t (b * BSize r d + slot r d io i ig)"
proof -
  let ?ws = "face_loop r d (\<lambda>io i ig.
              [(cell MemIndEnd r d 0 io i ig, ghosts t (slot r d io i ig)),
               (cell MemIndEnd r d 1 io i ig, ghosts t (BSize r d + slot r d io i ig))])"
  have b01: "b = 0 \<or> b = 1" using b by linarith
  have "write_all ?ws (phi_of t) (cell MemIndEnd r d b io i ig)
      = ghosts t (b * BSize r d + slot r d io i ig)"
  proof (rule write_all_lookup)
    show "(cell MemIndEnd r d b io i ig, ghosts t (b * BSize r d + slot r d io i ig)) \<in> set ?ws"
      unfolding face_loop_mem
    proof (intro exI conjI)
      show "io < Orb r" "i < max_d r d" "ig < NGHOSTS" by fact+
      show "(cell MemIndEnd r d b io i ig, ghosts t (b * BSize r d + slot r d io i ig))
          \<in> set [(cell MemIndEnd r d 0 io i ig, ghosts t (slot r d io i ig)),
               (cell MemIndEnd r d 1 io i ig, ghosts t (BSize r d + slot r d io i ig))]"
        using b01 by auto
    qed
    fix x' assume "(cell MemIndEnd r d b io i ig, x') \<in> set ?ws"
    then obtain io' i' ig' where k: "io' < Orb r" "i' < max_d r d" "ig' < NGHOSTS"
      and alt: "(cell MemIndEnd r d b io i ig = cell MemIndEnd r d 0 io' i' ig'
            \<and> x' = ghosts t (slot r d io' i' ig'))
          \<or> (cell MemIndEnd r d b io i ig = cell MemIndEnd r d 1 io' i' ig'
            \<and> x' = ghosts t (BSize r d + slot r d io' i' ig'))"
      unfolding face_loop_mem by auto
    from alt show "x' = ghosts t (b * BSize r d + slot r d io i ig)"
    proof
      assume c: "cell MemIndEnd r d b io i ig = cell MemIndEnd r d 0 io' i' ig'
            \<and> x' = ghosts t (slot r d io' i' ig')"
      from ghost_cell_inj[OF ok d b _ i k(2) ig k(3), of 0 io io'] c show ?thesis by simp
    next
      assume c: "cell MemIndEnd r d b io i ig = cell MemIndEnd r d 1 io' i' ig'
            \<and> x' = ghosts t (BSize r d + slot r d io' i' ig')"
      from ghost_cell_inj[OF ok d b _ i k(2) ig k(3), of 1 io io'] c show ?thesis by simp
    qed
  qed
  then show ?thesis by (simp add: unstage_def Let_def r phi_of_def)
qed

lemma unstage_other:
  assumes r: "r = lattice t"
    and a: "\<And>b io i ig. b < 2 \<Longrightarrow> io < Orb r \<Longrightarrow> i < max_d r d \<Longrightarrow> ig < NGHOSTS
        \<Longrightarrow> a \<noteq> cell MemIndEnd r d b io i ig"
  shows "v_data (kpm (unstage d t)) a c = v_data (kpm t) a c"
proof (cases "c = index (kpm t)")
  case False
  then show ?thesis by (simp add: unstage_frame)
next
  case True
  let ?ws = "face_loop r d (\<lambda>io i ig.
              [(cell MemIndEnd r d 0 io i ig, ghosts t (slot r d io i ig)),
               (cell MemIndEnd r d 1 io i ig, ghosts t (BSize r d + slot r d io i ig))])"
  have "a \<notin> fst ` set ?ws"
  proof
    assume "a \<in> fst ` set ?ws"
    then obtain x where "(a, x) \<in> set ?ws" by auto
    then obtain io i ig where "io < Orb r" "i < max_d r d" "ig < NGHOSTS"
      and "a = cell MemIndEnd r d 0 io i ig \<or> a = cell MemIndEnd r d 1 io i ig"
      unfolding face_loop_mem by auto
    then show False using a[of 0 io i ig] a[of 1 io i ig] by auto
  qed
  then have "write_all ?ws (phi_of t) a = phi_of t a" by (rule write_all_other)
  then show ?thesis using True by (simp add: unstage_def Let_def phi_of_def r)
qed


subsection \<open>The pass for one axis in a team\<close>

lemma shape_eq:
  assumes "shape r' = shape r"
  shows "max_d r' d = max_d r d" "BSize r' d = BSize r d" "slot r' d io i ig = slot r d io i ig"
    "cell MemIndBeg r' d b io i ig = cell MemIndBeg r d b io i ig"
    "cell MemIndEnd r' d b io i ig = cell MemIndEnd r d b io i ig"
    "Orb r' = Orb r" "lattice_ok r' = lattice_ok r" "bulk r' a = bulk r a"
    "set_index r' x y io = set_index r x y io"
  using assms
  by (simp_all add: shape_def max_d_def BSize_def slot_def cell_def MemIndBeg_def MemIndEnd_def
      stride_def stride_ghosts_def set_index_eq lattice_ok_def bulk_def x_of_def y_of_def orb_of_def)

lemma team_exchange_axis:
  assumes "team r W"
  shows "team r (exchange_axis d W)"
  using assms by (simp add: team_def exchange_axis_length exchange_axis_frame)

lemma exchange_axis_ghost:
  assumes tm: "team r W" and ok: "lattice_ok r" and d: "d < 2" and k: "k < length (threads W)"
    and b: "b < 2" and io: "io < Orb r" and i: "i < max_d r d" and ig: "ig < NGHOSTS"
  shows "phi_of (threads (exchange_axis d W) ! k) (cell MemIndEnd r d b io i ig)
       = phi_of (threads W ! block (threads W ! k) d b) (cell MemIndBeg r d (1 - b) io i ig)"
proof -
  let ?t = "threads W ! k"
  let ?n = "block ?t d b"
  let ?B = "BSize r d"
  let ?G = "foldl (publish d) (Global_ghosts W) (map (stage d) (threads W))"
  let ?s = "slot r d io i ig"
  from tm k have sk: "shape (lattice ?t) = shape r" by (simp add: team_def)
  from tm k d b have n: "?n < length (threads W)" by (simp add: team_def)
  with tm have sn: "shape (lattice (threads W ! ?n)) = shape r" by (simp add: team_def)
  note ek = shape_eq[OF sk] and en = shape_eq[OF sn]
  have s: "?s < ?B" using slot_less[OF io i ig] .
  have b': "1 - b < 2" by simp
  let ?t1 = "stage d ?t"
  let ?t2 = "fetch d ?G ?t1"
  have l1: "lattice ?t = lattice ?t1" and l2: "lattice ?t = lattice ?t2"
    by (simp_all add: fetch_frame stage_frame)
  have okk: "lattice_ok (lattice ?t)" and iok: "io < Orb (lattice ?t)"
    and ik: "i < max_d (lattice ?t) d" and sk': "?s < BSize (lattice ?t) d"
    using ok io i s by (simp_all add: ek)
  have ion: "io < Orb (lattice (threads W ! ?n))" and inn: "i < max_d (lattice (threads W ! ?n)) d"
    using io i by (simp_all add: en)
  have "phi_of (threads (exchange_axis d W) ! k) (cell MemIndEnd r d b io i ig)
      = phi_of (unstage d ?t2) (cell MemIndEnd (lattice ?t) d b io i ig)"
    by (simp only: exchange_axis_thread[OF k] ek(5))
  also have "\<dots> = ghosts ?t2 (b * BSize (lattice ?t) d + slot (lattice ?t) d io i ig)"
    by (rule unstage_value[OF l2 okk d b iok ik ig])
  also have "\<dots> = ghosts ?t2 (b * BSize (lattice ?t) d + ?s)" by (simp only: ek(3))
  also have "\<dots> = ?G (2 * block ?t1 d b * BSize (lattice ?t) d + (1 - b) * BSize (lattice ?t) d + ?s)"
    by (rule fetch_value[OF l1 b sk'])
  also have "\<dots> = ?G (2 * ?n * ?B + (1 - b) * ?B + ?s)" by (simp only: ek(2) stage_frame(3))
  also have "2 * ?n * ?B + (1 - b) * ?B + ?s = 2 * ?B * ?n + ((1 - b) * ?B + ?s)"
    by (simp add: mult.commute mult.left_commute)
  also have "?G (2 * ?B * ?n + ((1 - b) * ?B + ?s)) = ghosts (map (stage d) (threads W) ! ?n) ((1 - b) * ?B + ?s)"
  proof -
    have ids: "thread_id (lattice (map (stage d) (threads W) ! j)) = j
        \<and> BSize (lattice (map (stage d) (threads W) ! j)) d = ?B"
      if "j < length (map (stage d) (threads W))" for j
    proof -
      from that have j: "j < length (threads W)" by simp
      with tm have tid: "thread_id (lattice (threads W ! j)) = j"
        and sj: "shape (lattice (threads W ! j)) = shape r"
        by (simp_all add: team_def)
      show ?thesis using j tid shape_eq(2)[OF sj, of d] by (simp add: stage_frame)
    qed
    have n': "?n < length (map (stage d) (threads W))" using n by simp
    have "(1 - b) * ?B \<le> ?B" by (cases b) simp_all
    then have a': "(1 - b) * ?B + ?s < 2 * ?B" using s by linarith
    from ids n' a' show ?thesis by (rule publish_value)
  qed
  also have "\<dots> = ghosts (stage d (threads W ! ?n)) ((1 - b) * ?B + ?s)" using n by simp
  also have "\<dots> = ghosts (stage d (threads W ! ?n))
      ((1 - b) * BSize (lattice (threads W ! ?n)) d + slot (lattice (threads W ! ?n)) d io i ig)"
    by (simp only: en(2,3))
  also have "\<dots> = phi_of (threads W ! ?n) (cell MemIndBeg (lattice (threads W ! ?n)) d (1 - b) io i ig)"
    by (rule stage_value[OF refl b' ion inn ig])
  also have "\<dots> = phi_of (threads W ! ?n) (cell MemIndBeg r d (1 - b) io i ig)" by (simp only: en(4))
  finally show ?thesis .
qed

lemma exchange_axis_other:
  assumes tm: "team r W" and k: "k < length (threads W)"
    and a: "\<And>b io i ig. b < 2 \<Longrightarrow> io < Orb r \<Longrightarrow> i < max_d r d \<Longrightarrow> ig < NGHOSTS
        \<Longrightarrow> a \<noteq> cell MemIndEnd r d b io i ig"
  shows "phi_of (threads (exchange_axis d W) ! k) a = phi_of (threads W ! k) a"
proof -
  let ?t = "threads W ! k"
  let ?G = "foldl (publish d) (Global_ghosts W) (map (stage d) (threads W))"
  from tm k have sk: "shape (lattice ?t) = shape r" by (simp add: team_def)
  note ek = shape_eq[OF sk]
  have l2: "lattice ?t = lattice (fetch d ?G (stage d ?t))" by (simp add: fetch_frame stage_frame)
  have a': "a \<noteq> cell MemIndEnd (lattice ?t) d b io i ig"
    if "b < 2" "io < Orb (lattice ?t)" "i < max_d (lattice ?t) d" "ig < NGHOSTS" for b io i ig
    using a[of b io i ig] that by (simp add: ek)
  have "v_data (kpm (unstage d (fetch d ?G (stage d ?t)))) a c = v_data (kpm (fetch d ?G (stage d ?t))) a c" for c
    using l2 a' by (rule unstage_other)
  then show ?thesis
    by (simp add: phi_of_def exchange_axis_thread[OF k] unstage_frame fetch_frame stage_frame)
qed

lemma not_ghost_along_1:
  assumes ok: "lattice_ok r" and x: "x < Ld r 0" and y: "NGHOSTS \<le> y" "y < Ld r 1 - NGHOSTS"
    and b: "b < 2" and i: "i < max_d r 1" and ig: "ig < NGHOSTS"
  shows "set_index r x y io' \<noteq> cell MemIndEnd r 1 b io i ig"
proof
  assume eq: "set_index r x y io' = cell MemIndEnd r 1 b io i ig"
  from ok have L: "2 * NGHOSTS \<le> Ld r 1" by (simp add: lattice_ok_def)
  let ?y = "if b = 0 then ig else Ld r 1 - NGHOSTS + ig"
  have g: "cell MemIndEnd r 1 b io i ig = set_index r i ?y io"
    using ghost_cell[of 1 b r io i ig] b by simp
  have "i < Ld r 0" using i by (simp add: max_d_def)
  moreover have "?y < Ld r 1" using ig L by auto
  moreover have "y < Ld r 1" using y by simp
  ultimately have "y = ?y" using set_index_inj[OF x _ _ _ eq[unfolded g]] by blast
  then show False using y ig by (auto split: if_splits)
qed


lemma face_0_bulk:
  assumes ex: "exchangeable r" and b: "b < 2" and io: "io < Orb r" and i: "i < max_d r 0"
    and ig: "ig < NGHOSTS"
  shows "bulk r (cell MemIndBeg r 0 b io i ig)"
proof -
  from ex have L: "3 * NGHOSTS \<le> Ld r 0" "2 * NGHOSTS \<le> Ld r 1" "ld r 1 = Ld r 1 - 2 * NGHOSTS"
    by (simp_all add: exchangeable_def lattice_ok_def)
  let ?x = "if b = 0 then NGHOSTS + ig else Ld r 0 - 2 * NGHOSTS + ig"
  have c: "cell MemIndBeg r 0 b io i ig = set_index r ?x (NGHOSTS + i) io"
    using face_cell[of 0 b r io i ig] b by simp
  have x: "NGHOSTS \<le> ?x" "?x < Ld r 0 - NGHOSTS" using L(1) ig by auto
  have y: "NGHOSTS + i < Ld r 1 - NGHOSTS" using i L(2,3) by (simp add: max_d_def)
  have "?x < Ld r 0" "NGHOSTS + i < Ld r 1" using x y by linarith+
  from decode_site[OF this, of io] x y io show ?thesis unfolding c bulk_def by simp
qed

lemma ghost_0_not_ghost_along_1:
  assumes ok: "lattice_ok r" and b: "b < 2" "b' < 2" and i: "i < max_d r 0" "i' < max_d r 1"
    and ig: "ig < NGHOSTS" "ig' < NGHOSTS"
  shows "cell MemIndEnd r 0 b io i ig \<noteq> cell MemIndEnd r 1 b' io' i' ig'"
proof -
  from ok have L: "2 * NGHOSTS \<le> Ld r 0" "2 * NGHOSTS \<le> Ld r 1" "ld r 1 = Ld r 1 - 2 * NGHOSTS"
    by (simp_all add: lattice_ok_def)
  let ?x = "if b = 0 then ig else Ld r 0 - NGHOSTS + ig"
  have c: "cell MemIndEnd r 0 b io i ig = set_index r ?x (NGHOSTS + i) io"
    using ghost_cell[of 0 b r io i ig] b by simp
  have x: "?x < Ld r 0" using L(1) ig by auto
  have y: "NGHOSTS \<le> NGHOSTS + i" "NGHOSTS + i < Ld r 1 - NGHOSTS"
    using i L(2,3) by (simp_all add: max_d_def)
  show ?thesis unfolding c by (rule not_ghost_along_1[OF ok x y b(2) i(2) ig(2)])
qed

lemma face_1_not_ghost_along_1:
  assumes ex: "exchangeable r" and b: "b < 2" "b' < 2" and i: "i < max_d r 1" "i' < max_d r 1"
    and ig: "ig < NGHOSTS" "ig' < NGHOSTS"
  shows "cell MemIndBeg r 1 b io i ig \<noteq> cell MemIndEnd r 1 b' io' i' ig'"
proof -
  from ex have ok: "lattice_ok r" and L: "3 * NGHOSTS \<le> Ld r 1"
    by (simp_all add: exchangeable_def)
  let ?y = "if b = 0 then NGHOSTS + ig else Ld r 1 - 2 * NGHOSTS + ig"
  have c: "cell MemIndBeg r 1 b io i ig = set_index r i ?y io"
    using face_cell[of 1 b r io i ig] b by simp
  have x: "i < Ld r 0" using i by (simp add: max_d_def)
  have y: "NGHOSTS \<le> ?y" "?y < Ld r 1 - NGHOSTS" using L ig by auto
  show ?thesis unfolding c by (rule not_ghost_along_1[OF ok x y b(2) i(2) ig(2)])
qed

text \<open>
  C2. In a team of threads on identical subdomains whose bulk is at least as wide as the
  ghost layer, when \<open>Exchange_Boundaries\<close> has returned, every cell of the ghost face \<open>b\<close>
  of the axis \<open>d\<close> of every thread holds what the corresponding cell of the opposite bulk
  face of the thread \<open>block[d][b]\<close> holds; for the axis 0 that is what the neighbour held
  there before the call.
\<close>

theorem Exchange_Boundaries_ghosts:
  assumes tm: "team r W" and ex: "exchangeable r"
    and k: "k < length (threads W)" and d: "d < 2" and b: "b < 2"
    and io: "io < Orb r" and i: "i < max_d r d" and ig: "ig < NGHOSTS"
  shows "phi_of (threads (Exchange_Boundaries W) ! k) (cell MemIndEnd r d b io i ig)
       = phi_of (threads (Exchange_Boundaries W) ! block (threads W ! k) d b)
           (cell MemIndBeg r d (1 - b) io i ig)
     \<and> (d = 0 \<longrightarrow> phi_of (threads (Exchange_Boundaries W) ! k) (cell MemIndEnd r d b io i ig)
           = phi_of (threads W ! block (threads W ! k) d b) (cell MemIndBeg r d (1 - b) io i ig))"
proof -
  let ?W1 = "exchange_axis 0 W"
  let ?n = "block (threads W ! k) d b"
  from ex have ok: "lattice_ok r" by (simp add: exchangeable_def)
  have tm1: "team r ?W1" using tm by (rule team_exchange_axis)
  have k1: "k < length (threads ?W1)" using k by (simp add: exchange_axis_length)
  from tm k d b have n: "?n < length (threads W)" by (simp add: team_def)
  then have n1: "?n < length (threads ?W1)" by (simp add: exchange_axis_length)
  from tm n have sn: "shape (lattice (threads W ! ?n)) = shape r" by (simp add: team_def)
  have b': "1 - b < 2" by simp
  have "d = 0 \<or> d = 1" using d by linarith
  then show ?thesis
  proof
    assume d0: "d = 0"
    have i0: "i < max_d r 0" using i d0 by simp
    have "phi_of (threads (Exchange_Boundaries W) ! k) (cell MemIndEnd r 0 b io i ig)
        = phi_of (threads ?W1 ! k) (cell MemIndEnd r 0 b io i ig)"
      unfolding Exchange_Boundaries_unfold using tm1 k1
      by (rule exchange_axis_other) (rule ghost_0_not_ghost_along_1[OF ok b _ i0 _ ig])
    also have "\<dots> = phi_of (threads W ! block (threads W ! k) 0 b) (cell MemIndBeg r 0 (1 - b) io i ig)"
      using tm ok _ k b io i0 ig by (rule exchange_axis_ghost) simp
    finally have before: "phi_of (threads (Exchange_Boundaries W) ! k) (cell MemIndEnd r 0 b io i ig)
        = phi_of (threads W ! block (threads W ! k) 0 b) (cell MemIndBeg r 0 (1 - b) io i ig)" .
    have "bulk r (cell MemIndBeg r 0 (1 - b) io i ig)" using ex b' io i0 ig by (rule face_0_bulk)
    then have "phi_of (threads (Exchange_Boundaries W) ! block (threads W ! k) 0 b)
          (cell MemIndBeg r 0 (1 - b) io i ig)
        = phi_of (threads W ! block (threads W ! k) 0 b) (cell MemIndBeg r 0 (1 - b) io i ig)"
      using n ok unfolding d0
      by (intro Exchange_Boundaries_bulk_phi) (simp_all add: shape_eq(7,8)[OF sn[unfolded d0]])
    with before show ?thesis by (simp add: d0)
  next
    assume d1: "d = 1"
    have i1: "i < max_d r 1" using i d1 by simp
    have blk: "block (threads ?W1 ! k) 1 b = block (threads W ! k) 1 b"
      using k by (simp add: exchange_axis_frame)
    have "phi_of (threads (Exchange_Boundaries W) ! k) (cell MemIndEnd r 1 b io i ig)
        = phi_of (threads ?W1 ! block (threads ?W1 ! k) 1 b) (cell MemIndBeg r 1 (1 - b) io i ig)"
      unfolding Exchange_Boundaries_unfold using tm1 ok _ k1 b io i1 ig
      by (rule exchange_axis_ghost) simp
    also have "\<dots> = phi_of (threads ?W1 ! block (threads W ! k) 1 b) (cell MemIndBeg r 1 (1 - b) io i ig)"
      by (simp only: blk)
    also have "\<dots> = phi_of (threads (Exchange_Boundaries W) ! block (threads W ! k) 1 b)
          (cell MemIndBeg r 1 (1 - b) io i ig)"
      unfolding Exchange_Boundaries_unfold
      by (rule exchange_axis_other[OF tm1 n1[unfolded d1], symmetric])
        (rule face_1_not_ghost_along_1[OF ex b' _ i1 _ ig])
    finally show ?thesis by (simp add: d1)
  qed
qed


end
